theory Spec2Isabelle
  imports
    Main
    "HOL-Library.Multiset"
    "HOL-Library.Product_Lexorder"
    "HOL-Library.Char_ord"
    "HOL-Library.List_Lexorder"
    "HOL-Library.Monad_Syntax"
begin

section \<open>Strings\<close>

text \<open>
  Python strings are modelled as \<^typ>\<open>string\<close>, a character being a code point
  below 256. On these \<^verbatim>\<open>str.lower()\<close> maps the capital letters to the letter 32
  code points further and leaves every other character alone; the capital letters are
  A to Z (65 to 90) and the accented capitals 192 to 222 without the multiplication
  sign 215. Code points from 256 on are outside the model.
\<close>

definition lower_char :: "char \<Rightarrow> char" where
  "lower_char c =
     (let n = (of_char c :: nat) in
      if (65 \<le> n \<and> n \<le> 90) \<or> (192 \<le> n \<and> n \<le> 214) \<or> (216 \<le> n \<and> n \<le> 222)
      then char_of (n + 32) else c)"

definition lower :: "string \<Rightarrow> string" where
  "lower s = map lower_char s"

text \<open>\<^verbatim>\<open>s.replace(c, "")\<close> for a one-character \<open>c\<close>: every occurrence is removed.\<close>

definition replace_char :: "char \<Rightarrow> string \<Rightarrow> string" where
  "replace_char c s = filter (\<lambda>x. x \<noteq> c) s"

text \<open>\<^verbatim>\<open>word.endswith(suf)\<close>.\<close>

definition endswith :: "string \<Rightarrow> string \<Rightarrow> bool" where
  "endswith word suf =
     (length suf \<le> length word \<and> drop (length word - length suf) word = suf)"

text \<open>\<^verbatim>\<open>word[:-n]\<close> for a positive literal \<open>n\<close>: the word without its last \<open>n\<close>
  characters, the empty string when the word is shorter.\<close>

definition drop_last :: "nat \<Rightarrow> string \<Rightarrow> string" where
  "drop_last n word = take (length word - n) word"

section \<open>The stemmer\<close>

text \<open>Step 1a of \<^verbatim>\<open>PorterStemmer.stem\<close>: plurals.\<close>

definition step1a :: "string \<Rightarrow> string" where
  "step1a word =
     (if endswith word ''sses'' then drop_last 2 word
      else if endswith word ''ies'' then drop_last 2 word
      else if endswith word ''ss'' then word
      else if endswith word ''s'' then drop_last 1 word
      else word)"

text \<open>Step 1b: past tense and gerunds. The length test is nested inside the suffix
  test, so a short word ending in \<open>eed\<close> is not tried against \<open>ed\<close>.\<close>

definition step1b :: "string \<Rightarrow> string" where
  "step1b word =
     (if endswith word ''eed'' then (if length word > 4 then drop_last 1 word else word)
      else if endswith word ''ed'' then (if length word > 4 then drop_last 2 word else word)
      else if endswith word ''ing'' then (if length word > 5 then drop_last 3 word else word)
      else word)"

text \<open>Step 2: common suffixes.\<close>

definition step2 :: "string \<Rightarrow> string" where
  "step2 word =
     (if endswith word ''ational'' then drop_last 5 word @ ''e''
      else if endswith word ''tion'' then drop_last 4 word @ ''t''
      else if endswith word ''ness'' then drop_last 4 word
      else if endswith word ''ment'' then drop_last 4 word
      else if endswith word ''able'' then drop_last 4 word
      else if endswith word ''ible'' then drop_last 4 word
      else if endswith word ''ful'' then drop_last 3 word
      else if endswith word ''ous'' then drop_last 3 word
      else if endswith word ''ive'' then drop_last 3 word
      else if endswith word ''ly'' then drop_last 2 word
      else word)"

text \<open>\<^verbatim>\<open>PorterStemmer.stem\<close>: lowercase, then the three steps in sequence.\<close>

definition PorterStemmer_stem :: "string \<Rightarrow> string" where
  "PorterStemmer_stem word = step2 (step1b (step1a (lower word)))"

text \<open>\<^verbatim>\<open>normalize\<close>: three successive \<^verbatim>\<open>replace\<close> calls, then \<^verbatim>\<open>lower\<close>.\<close>

definition normalize :: "string \<Rightarrow> string" where
  "normalize token =
     lower (replace_char (CHR ''.'') (replace_char (CHR '','') (replace_char (CHR 0x27) token)))"

definition stem :: "string \<Rightarrow> string" where
  "stem token = PorterStemmer_stem (normalize token)"

subsection \<open>The reference pipeline of the specification\<close>

text \<open>
  The specification describes \<open>stem\<close> as one removal of the three punctuation
  characters, one lowercasing and three passes over a rule table, each pass applying
  the first rule whose condition holds. The definitions below follow that description
  and share nothing with the definitions above: lowercasing is a table of the capital
  letters and their small letters, a word ends with a suffix when its reversal starts
  with the reversed suffix, and dropping the last \<open>n\<close> characters drops the first
  \<open>n\<close> of the reversal. They are compared with \<^const>\<open>stem\<close> further down.
\<close>

definition letter_codes :: "nat list" where
  "letter_codes = [65..<91] @ [192..<215] @ [216..<223]"

definition upper_letters :: string where
  "upper_letters =
     ''ABCDEFGHIJKLMNOPQRSTUVWXYZ'' @ map char_of ([192..<215] @ [216..<223] :: nat list)"

definition lower_letters :: string where
  "lower_letters =
     ''abcdefghijklmnopqrstuvwxyz'' @ map char_of ([224..<247] @ [248..<255] :: nat list)"

definition spec_lower_char :: "char \<Rightarrow> char" where
  "spec_lower_char c =
     (case map_of (zip upper_letters lower_letters) c of Some d \<Rightarrow> d | None \<Rightarrow> c)"

definition spec_lower :: "string \<Rightarrow> string" where
  "spec_lower s = map spec_lower_char s"

definition spec_ends_with :: "string \<Rightarrow> string \<Rightarrow> bool" where
  "spec_ends_with w suf = (take (length suf) (rev w) = rev suf)"

definition spec_drop_last :: "nat \<Rightarrow> string \<Rightarrow> string" where
  "spec_drop_last n w = rev (drop n (rev w))"

definition spec_normalize :: "string \<Rightarrow> string" where
  "spec_normalize token =
     spec_lower (filter (\<lambda>c. c \<notin> {CHR 0x27, CHR '','', CHR ''.''}) token)"

type_synonym rule = "(string \<Rightarrow> bool) \<times> (string \<Rightarrow> string)"

fun apply_first :: "rule list \<Rightarrow> string \<Rightarrow> string" where
  "apply_first [] w = w"
| "apply_first ((applies, transform) # rs) w =
     (if applies w then transform w else apply_first rs w)"

definition spec_pass1 :: "rule list" where
  "spec_pass1 =
     [(\<lambda>w. spec_ends_with w ''sses'', spec_drop_last 2),
      (\<lambda>w. spec_ends_with w ''ies'', spec_drop_last 2),
      (\<lambda>w. spec_ends_with w ''ss'', \<lambda>w. w),
      (\<lambda>w. spec_ends_with w ''s'', spec_drop_last 1)]"

definition spec_pass2 :: "rule list" where
  "spec_pass2 =
     [(\<lambda>w. spec_ends_with w ''eed'' \<and> length w > 4, spec_drop_last 1),
      (\<lambda>w. spec_ends_with w ''ed'' \<and> length w > 4, spec_drop_last 2),
      (\<lambda>w. spec_ends_with w ''ing'' \<and> length w > 5, spec_drop_last 3)]"

definition spec_pass3 :: "rule list" where
  "spec_pass3 =
     [(\<lambda>w. spec_ends_with w ''ational'', \<lambda>w. spec_drop_last 5 w @ ''e''),
      (\<lambda>w. spec_ends_with w ''tion'', \<lambda>w. spec_drop_last 4 w @ ''t''),
      (\<lambda>w. spec_ends_with w ''ness'', spec_drop_last 4),
      (\<lambda>w. spec_ends_with w ''ment'', spec_drop_last 4),
      (\<lambda>w. spec_ends_with w ''able'', spec_drop_last 4),
      (\<lambda>w. spec_ends_with w ''ible'', spec_drop_last 4),
      (\<lambda>w. spec_ends_with w ''ful'', spec_drop_last 3),
      (\<lambda>w. spec_ends_with w ''ous'', spec_drop_last 3),
      (\<lambda>w. spec_ends_with w ''ive'', spec_drop_last 3),
      (\<lambda>w. spec_ends_with w ''ly'', spec_drop_last 2)]"

definition spec_stem :: "string \<Rightarrow> string" where
  "spec_stem token =
     apply_first spec_pass3 (apply_first spec_pass2 (apply_first spec_pass1 (spec_normalize token)))"

section \<open>Data model\<close>

text \<open>A span is the Python tuple \<open>(start, end)\<close> of two integers. Tuples are compared
  lexicographically, which is the order of \<^typ>\<open>int \<times> int\<close> used by \<^const>\<open>sort\<close>.\<close>

type_synonym span = "int \<times> int"

text \<open>Class \<^verbatim>\<open>LineMatch\<close>; the field \<^verbatim>\<open>text\<close> is called \<open>line_text\<close> here.\<close>

record LineMatch =
  line_no :: int
  line_text :: string
  spans :: "span list"

text \<open>Class \<^verbatim>\<open>Posting\<close>; \<^verbatim>\<open>line_no\<close> is \<^verbatim>\<open>None\<close> for a posting in the title.\<close>

record Posting =
  posting_line_no :: "int option"
  position :: int
  token_length :: int

record SearchResult =
  title :: string
  title_spans :: "span list"
  line_matches :: "LineMatch list"
  matches :: int

text \<open>A \<^verbatim>\<open>Sonnet\<close> object as the index receives it: its id, title and lines.\<close>

record Sonnet =
  sonnet_id :: int
  sonnet_title :: string
  lines :: "string list"

datatype error = KeyError | IndexError

section \<open>Dictionaries\<close>

text \<open>
  A Python \<^verbatim>\<open>dict\<close> keeps its keys in insertion order, and the order is visible
  in what the program returns. It is modelled as a list of key-value pairs:
  \<^const>\<open>map_of\<close> is the lookup, storing under an existing key keeps the key's place,
  storing under a new key appends.
\<close>

type_synonym ('k, 'v) dict = "('k \<times> 'v) list"

fun dict_set :: "('k, 'v) dict \<Rightarrow> 'k \<Rightarrow> 'v \<Rightarrow> ('k, 'v) dict" where
  "dict_set [] k v = [(k, v)]"
| "dict_set ((k', v') # d) k v =
     (if k' = k then (k, v) # d else (k', v') # dict_set d k v)"

definition dict_values :: "('k, 'v) dict \<Rightarrow> 'v list" where
  "dict_values d = map snd d"

text \<open>\<^verbatim>\<open>xs[i]\<close> on a list: a negative index counts from the end, an index out of
  range raises \<^verbatim>\<open>IndexError\<close> (here \<open>None\<close>).\<close>

definition list_index :: "'a list \<Rightarrow> int \<Rightarrow> 'a option" where
  "list_index xs i =
     (let n = int (length xs); j = (if i < 0 then i + n else i)
      in if 0 \<le> j \<and> j < n then Some (xs ! nat j) else None)"

section \<open>Combining two search results\<close>

text \<open>
  \<^verbatim>\<open>SearchResult.combine_with\<close>. The dictionary \<^verbatim>\<open>lines_by_no\<close> is first filled
  from the line matches of \<open>self\<close> (a later entry with the same line number replaces
  an earlier one), then every line match of \<open>other\<close> is merged into it.
\<close>

definition lines_by_no_init :: "LineMatch list \<Rightarrow> (int, LineMatch) dict" where
  "lines_by_no_init lms = fold (\<lambda>lm d. dict_set d (line_no lm) lm) lms []"

definition merge_line :: "LineMatch \<Rightarrow> (int, LineMatch) dict \<Rightarrow> (int, LineMatch) dict" where
  "merge_line lm d =
     (let ln = line_no lm in
      case map_of d ln of
        Some cur \<Rightarrow> dict_set d ln (cur\<lparr>spans := spans cur @ spans lm\<rparr>)
      | None \<Rightarrow> dict_set d ln lm)"

definition lines_by_no :: "SearchResult \<Rightarrow> SearchResult \<Rightarrow> (int, LineMatch) dict" where
  "lines_by_no self other =
     fold merge_line (line_matches other) (lines_by_no_init (line_matches self))"

definition combine_with :: "SearchResult \<Rightarrow> SearchResult \<Rightarrow> SearchResult" where
  "combine_with self other =
     self\<lparr>matches := matches self + matches other,
          title_spans := sort (title_spans self @ title_spans other),
          line_matches := sort_key line_no (dict_values (lines_by_no self other))\<rparr>"

text \<open>Observations on a result used in the statements below: the spans recorded for one
  line number, the list of (line number, span) pairs, and the number of spans.\<close>

definition spans_for :: "int \<Rightarrow> LineMatch list \<Rightarrow> span list" where
  "spans_for ln lms = concat (map spans (filter (\<lambda>lm. line_no lm = ln) lms))"

definition line_span_pairs :: "LineMatch list \<Rightarrow> (int \<times> span) list" where
  "line_span_pairs lms = concat (map (\<lambda>lm. map (Pair (line_no lm)) (spans lm)) lms)"

definition dict_spans :: "(int, LineMatch) dict \<Rightarrow> int \<Rightarrow> span list" where
  "dict_spans d k = (case map_of d k of Some v \<Rightarrow> spans v | None \<Rightarrow> [])"

definition unique_lines :: "SearchResult \<Rightarrow> bool" where
  "unique_lines r = distinct (map line_no (line_matches r))"

definition count_ok :: "SearchResult \<Rightarrow> bool" where
  "count_ok r =
     (matches r = int (length (title_spans r)) + (\<Sum>lm\<leftarrow>line_matches r. int (length (spans lm))))"

definition well_formed :: "SearchResult \<Rightarrow> bool" where
  "well_formed r = (count_ok r \<and> unique_lines r)"

section \<open>Tokenizer\<close>

text \<open>The characters below 256 for which \<^verbatim>\<open>str.isspace\<close> holds, which are also the
  ones the regular expression \<^verbatim>\<open>\s\<close> matches on a string: the codes 9 to 13 and 28 to
  32, the next-line character 133 and the no-break space 160.\<close>

definition is_space :: "char \<Rightarrow> bool" where
  "is_space c =
     (let n = (of_char c :: nat) in
      (9 \<le> n \<and> n \<le> 13) \<or> (28 \<le> n \<and> n \<le> 32) \<or> n = 133 \<or> n = 160)"

text \<open>
  \<^verbatim>\<open>re.finditer(r"\S+", text)\<close>: the maximal runs of non-space characters, each with
  the index of its first character. The scan carries the run read so far, its start and
  the current index.
\<close>

fun scan_tokens :: "string \<Rightarrow> int \<Rightarrow> int \<Rightarrow> string \<Rightarrow> (string \<times> int) list" where
  "scan_tokens cur start pos [] = (if cur = [] then [] else [(cur, start)])"
| "scan_tokens cur start pos (c # cs) =
     (if is_space c
      then (if cur = [] then [] else [(cur, start)]) @ scan_tokens [] (pos + 1) (pos + 1) cs
      else scan_tokens (cur @ [c]) (if cur = [] then pos else start) (pos + 1) cs)"

definition tokenize :: "string \<Rightarrow> (string \<times> int) list" where
  "tokenize text = scan_tokens [] 0 0 text"

text \<open>\<^verbatim>\<open>query.split()\<close>: the same runs, without their positions.\<close>

definition split :: "string \<Rightarrow> string list" where
  "split query = map fst (tokenize query)"

text \<open>\<^verbatim>\<open>enumerate(xs, start=n)\<close>.\<close>

fun enumerate_from :: "int \<Rightarrow> 'a list \<Rightarrow> (int \<times> 'a) list" where
  "enumerate_from n [] = []"
| "enumerate_from n (x # xs) = (n, x) # enumerate_from (n + 1) xs"

section \<open>The inverted index\<close>

type_synonym postings_list = "(int, Posting list) dict"

record Index =
  sonnets :: "(int, Sonnet) dict"
  dictionary :: "(string, postings_list) dict"

text \<open>\<^verbatim>\<open>Index._add_token\<close>, on the dictionary.\<close>

definition add_token ::
  "(string, postings_list) dict \<Rightarrow> int \<Rightarrow> string \<Rightarrow> int option \<Rightarrow> int \<Rightarrow> int
     \<Rightarrow> (string, postings_list) dict" where
  "add_token dict doc_id token ln pos len =
     (let postings_list = (case map_of dict token of None \<Rightarrow> [] | Some pl \<Rightarrow> pl);
          postings = (case map_of postings_list doc_id of None \<Rightarrow> [] | Some ps \<Rightarrow> ps)
      in dict_set dict token
           (dict_set postings_list doc_id
              (postings @ [\<lparr>posting_line_no = ln, position = pos, token_length = len\<rparr>])))"

text \<open>The two loops of \<^verbatim>\<open>Index.__init__\<close> over one sonnet: its title, then its lines
  numbered from 1.\<close>

definition index_text ::
  "int \<Rightarrow> int option \<Rightarrow> string \<Rightarrow> (string, postings_list) dict \<Rightarrow> (string, postings_list) dict" where
  "index_text doc_id ln text dict =
     fold (\<lambda>(token, pos) d. add_token d doc_id (stem token) ln pos (int (length token)))
       (tokenize text) dict"

definition index_sonnet ::
  "Sonnet \<Rightarrow> (string, postings_list) dict \<Rightarrow> (string, postings_list) dict" where
  "index_sonnet sonnet dict =
     fold (\<lambda>(ln, line) d. index_text (sonnet_id sonnet) (Some ln) line d)
       (enumerate_from 1 (lines sonnet))
       (index_text (sonnet_id sonnet) None (sonnet_title sonnet) dict)"

definition Index_init :: "Sonnet list \<Rightarrow> Index" where
  "Index_init sonnet_list =
     \<lparr>sonnets = fold (\<lambda>sonnet d. dict_set d (sonnet_id sonnet) sonnet) sonnet_list [],
      dictionary = fold index_sonnet sonnet_list []\<rparr>"

text \<open>
  \<^verbatim>\<open>Index.search_for\<close>. The body of the inner loop builds the result of one posting
  and stores or combines it; the sonnet lookup raises \<^verbatim>\<open>KeyError\<close> for an unknown
  id and the line lookup \<^verbatim>\<open>IndexError\<close> for a line the sonnet does not have.
\<close>

definition posting_result :: "Index \<Rightarrow> int \<Rightarrow> Posting \<Rightarrow> error + SearchResult" where
  "posting_result idx doc_id posting =
     (case map_of (sonnets idx) doc_id of
        None \<Rightarrow> Inl KeyError
      | Some sonnet \<Rightarrow>
          (case posting_line_no posting of
             None \<Rightarrow>
               Inr \<lparr>title = sonnet_title sonnet,
                    title_spans = [(position posting, position posting + token_length posting)],
                    line_matches = [],
                    matches = 1\<rparr>
           | Some ln \<Rightarrow>
               (case list_index (lines sonnet) (ln - 1) of
                  None \<Rightarrow> Inl IndexError
                | Some text \<Rightarrow>
                    Inr \<lparr>title = sonnet_title sonnet,
                         title_spans = [],
                         line_matches =
                           [\<lparr>line_no = ln, line_text = text,
                             spans = [(position posting, position posting + token_length posting)]\<rparr>],
                         matches = 1\<rparr>)))"

fun search_postings ::
  "Index \<Rightarrow> int \<Rightarrow> Posting list \<Rightarrow> (int, SearchResult) dict \<Rightarrow> error + (int, SearchResult) dict" where
  "search_postings idx doc_id [] results = Inr results"
| "search_postings idx doc_id (posting # postings) results =
     (case posting_result idx doc_id posting of
        Inl e \<Rightarrow> Inl e
      | Inr result \<Rightarrow>
          search_postings idx doc_id postings
            (case map_of results doc_id of
               None \<Rightarrow> dict_set results doc_id result
             | Some r \<Rightarrow> dict_set results doc_id (combine_with r result)))"

fun search_docs ::
  "Index \<Rightarrow> postings_list \<Rightarrow> (int, SearchResult) dict \<Rightarrow> error + (int, SearchResult) dict" where
  "search_docs idx [] results = Inr results"
| "search_docs idx ((doc_id, postings) # rest) results =
     (case search_postings idx doc_id postings results of
        Inl e \<Rightarrow> Inl e
      | Inr results' \<Rightarrow> search_docs idx rest results')"

definition search_for :: "Index \<Rightarrow> string \<Rightarrow> error + (int, SearchResult) dict" where
  "search_for idx token =
     (case map_of (dictionary idx) (stem token) of
        None \<Rightarrow> Inr []
      | Some postings_list \<Rightarrow> search_docs idx postings_list [])"

text \<open>
  What a result is compared with: the span of a posting, the spans of the postings in
  the title and of those in one line, in the order of the posting list.
\<close>

definition posting_span :: "Posting \<Rightarrow> span" where
  "posting_span p = (position p, position p + token_length p)"

definition title_posting_spans :: "Posting list \<Rightarrow> span list" where
  "title_posting_spans ps = map posting_span (filter (\<lambda>p. posting_line_no p = None) ps)"

definition line_posting_spans :: "int \<Rightarrow> Posting list \<Rightarrow> span list" where
  "line_posting_spans ln ps = map posting_span (filter (\<lambda>p. posting_line_no p = Some ln) ps)"

definition accounts_for :: "SearchResult \<Rightarrow> Posting list \<Rightarrow> bool" where
  "accounts_for r ps =
     (matches r = int (length ps) \<and>
      title_spans r = sort (title_posting_spans ps) \<and>
      sorted_wrt (<) (map line_no (line_matches r)) \<and>
      line_no ` set (line_matches r) = {ln. \<exists>p \<in> set ps. posting_line_no p = Some ln} \<and>
      (\<forall>lm \<in> set (line_matches r). spans lm = line_posting_spans (line_no lm) ps))"

text \<open>
  The state of an index in which every lookup of \<^const>\<open>search_for\<close> succeeds: keys
  are unique, no posting list is empty, and every posting belongs to a sonnet of the
  index that has the posting's line.
\<close>

definition line_ok :: "Sonnet \<Rightarrow> int option \<Rightarrow> bool" where
  "line_ok sonnet ln =
     (case ln of None \<Rightarrow> True | Some n \<Rightarrow> 1 \<le> n \<and> n \<le> int (length (lines sonnet)))"

definition dictionary_ok ::
  "(int \<Rightarrow> int option \<Rightarrow> bool) \<Rightarrow> (string, postings_list) dict \<Rightarrow> bool" where
  "dictionary_ok valid dict =
     (distinct (map fst dict) \<and>
      (\<forall>(token, pl) \<in> set dict.
         distinct (map fst pl) \<and>
         (\<forall>(doc_id, ps) \<in> set pl.
            ps \<noteq> [] \<and> (\<forall>p \<in> set ps. valid doc_id (posting_line_no p)))))"

definition index_ok :: "Index \<Rightarrow> bool" where
  "index_ok idx =
     dictionary_ok
       (\<lambda>doc_id ln. \<exists>sonnet. map_of (sonnets idx) doc_id = Some sonnet \<and> line_ok sonnet ln)
       (dictionary idx)"

section \<open>The searcher\<close>

record Searcher =
  index :: Index

definition Searcher_init :: "Sonnet list \<Rightarrow> Searcher" where
  "Searcher_init sonnet_list = \<lparr>index = Index_init sonnet_list\<rparr>"

text \<open>The AND branch: a new dictionary with the documents of the running set that the
  new word matched too. The loop runs over the keys of the running set and reads
  \<^verbatim>\<open>combined_results[doc_id]\<close>, the value stored with the key; here it runs over the
  pairs.\<close>

definition and_step ::
  "(int, SearchResult) dict \<Rightarrow> (int, SearchResult) dict \<Rightarrow> (int, SearchResult) dict" where
  "and_step combined_results results =
     fold (\<lambda>(doc_id, r) new_combined.
             case map_of results doc_id of
               Some r' \<Rightarrow> dict_set new_combined doc_id (combine_with r r')
             | None \<Rightarrow> new_combined)
       combined_results []"

text \<open>The OR branch: the running set is updated in place.\<close>

definition or_step ::
  "(int, SearchResult) dict \<Rightarrow> (int, SearchResult) dict \<Rightarrow> (int, SearchResult) dict" where
  "or_step combined_results results =
     fold (\<lambda>(doc_id, result) combined.
             case map_of combined doc_id of
               Some r \<Rightarrow> dict_set combined doc_id (combine_with r result)
             | None \<Rightarrow> dict_set combined doc_id result)
       results combined_results"

text \<open>
  The loop of \<^verbatim>\<open>Searcher.search\<close> over the words. The test
  \<^verbatim>\<open>if not combined_results\<close> is the emptiness of the running set; a mode that is
  neither \<^verbatim>\<open>"AND"\<close> nor \<^verbatim>\<open>"OR"\<close> takes neither branch and leaves the running set
  as it is.
\<close>

fun search_words ::
  "Index \<Rightarrow> string \<Rightarrow> string list \<Rightarrow> (int, SearchResult) dict \<Rightarrow> error + (int, SearchResult) dict" where
  "search_words idx search_mode [] combined_results = Inr combined_results"
| "search_words idx search_mode (word # words) combined_results =
     (case search_for idx word of
        Inl e \<Rightarrow> Inl e
      | Inr results \<Rightarrow>
          search_words idx search_mode words
            (if combined_results = [] then results
             else if search_mode = ''AND'' then and_step combined_results results
             else if search_mode = ''OR'' then or_step combined_results results
             else combined_results))"

definition search :: "Searcher \<Rightarrow> string \<Rightarrow> string \<Rightarrow> error + SearchResult list" where
  "search searcher query search_mode =
     (case search_words (index searcher) search_mode (split query) [] of
        Inl e \<Rightarrow> Inl e
      | Inr combined_results \<Rightarrow> Inr (sort_key title (dict_values combined_results)))"

section \<open>Highlighting\<close>

text \<open>
  Python slices clamp their bounds: a negative bound counts from the end and stops at 0,
  a bound beyond the end stops at the length. \<open>slice text i j\<close> is \<^verbatim>\<open>text[i:j]\<close> and
  \<open>slice_from text i\<close> is \<^verbatim>\<open>text[i:]\<close>.
\<close>

definition slice_index :: "nat \<Rightarrow> int \<Rightarrow> nat" where
  "slice_index n i = (if i < 0 then nat (max 0 (i + int n)) else min n (nat i))"

definition slice :: "string \<Rightarrow> int \<Rightarrow> int \<Rightarrow> string" where
  "slice text i j =
     (let a = slice_index (length text) i; b = slice_index (length text) j
      in take (b - a) (drop a text))"

definition slice_from :: "string \<Rightarrow> int \<Rightarrow> string" where
  "slice_from text i = drop (slice_index (length text) i) text"

text \<open>The merging loop of \<^verbatim>\<open>ansi_highlight\<close> over the sorted spans after the first,
  with the list \<^verbatim>\<open>merged\<close> and the current region; the last region is appended
  after the loop.\<close>

fun merge_spans :: "span list \<Rightarrow> int \<Rightarrow> int \<Rightarrow> span list \<Rightarrow> span list" where
  "merge_spans merged current_start current_end [] = merged @ [(current_start, current_end)]"
| "merge_spans merged current_start current_end ((s, e) # rest) =
     (if s \<le> current_end
      then merge_spans merged current_start (max current_end e) rest
      else merge_spans (merged @ [(current_start, current_end)]) s e rest)"

text \<open>The list \<^verbatim>\<open>merged\<close> for a list of spans: they are sorted, the first one starts
  the current region. For no spans the function has returned before.\<close>

definition merged_spans :: "span list \<Rightarrow> span list" where
  "merged_spans span_list =
     (case sort span_list of
        [] \<Rightarrow> []
      | (current_start, current_end) # rest \<Rightarrow> merge_spans [] current_start current_end rest)"

definition ansi_reset :: string where
  "ansi_reset = CHR 0x1B # ''[0m''"

definition ansi_sequence :: "string \<Rightarrow> string" where
  "ansi_sequence highlight_mode =
     (if highlight_mode = ''DEFAULT'' then CHR 0x1B # ''[43m'' @ CHR 0x1B # ''[30m''
      else CHR 0x1B # ''[1;92m'')"

text \<open>The output loop: the list \<^verbatim>\<open>out\<close> of pieces and the index \<open>i\<close> up to which
  the text has been copied; the rest of the text is appended after the loop.\<close>

fun render :: "string \<Rightarrow> string \<Rightarrow> string list \<Rightarrow> int \<Rightarrow> span list \<Rightarrow> string list" where
  "render text seq out i [] = out @ [slice_from text i]"
| "render text seq out i ((s, e) # merged) =
     render text seq (out @ [slice text i s, seq, slice text s e, ansi_reset]) e merged"

definition ansi_out :: "string \<Rightarrow> span list \<Rightarrow> string \<Rightarrow> string list" where
  "ansi_out text span_list highlight_mode =
     render text (ansi_sequence highlight_mode) [] 0 (merged_spans span_list)"

definition ansi_highlight :: "string \<Rightarrow> span list \<Rightarrow> string \<Rightarrow> string" where
  "ansi_highlight text span_list highlight_mode =
     (if span_list = [] then text else concat (ansi_out text span_list highlight_mode))"

text \<open>
  Reading the list of pieces: the pieces at even positions are pieces of the text, which
  alternate between text outside and inside a region; the pieces at odd positions are
  the markers.
\<close>

fun text_pieces :: "'a list \<Rightarrow> 'a list" where
  "text_pieces (x # m # xs) = x # text_pieces xs"
| "text_pieces xs = xs"

fun marker_pieces :: "'a list \<Rightarrow> 'a list" where
  "marker_pieces (x # m # xs) = m # marker_pieces xs"
| "marker_pieces xs = []"

definition highlighted_pieces :: "'a list \<Rightarrow> 'a list" where
  "highlighted_pieces out = marker_pieces (text_pieces out)"

definition valid_spans :: "span list \<Rightarrow> bool" where
  "valid_spans span_list = list_all (\<lambda>(s, e). 0 \<le> s \<and> s \<le> e) span_list"

definition covered :: "span list \<Rightarrow> int set" where
  "covered span_list = (\<Union>(s, e) \<in> set span_list. {s..<e})"

definition separated :: "span list \<Rightarrow> bool" where
  "separated span_list = sorted_wrt (\<lambda>(s1, e1) (s2, e2). e1 < s2) span_list"

section \<open>Example data\<close>

text \<open>Two results about one document, and a third, used to instantiate the theorems
  about \<^const>\<open>combine_with\<close>.\<close>

text \<open>The two documents of the scenario in the specification.\<close>

definition sonnet_1 :: Sonnet where
  "sonnet_1 =
     \<lparr>sonnet_id = 1, sonnet_title = ''Sonnet 1: Test'',
      lines = [''From fairest creatures we desire increase'']\<rparr>"

definition sonnet_2 :: Sonnet where
  "sonnet_2 =
     \<lparr>sonnet_id = 2, sonnet_title = ''Sonnet 2: Other'',
      lines = [''Thy beauty's image dost thou rose increase'']\<rparr>"

definition corpus :: "Sonnet list" where
  "corpus = [sonnet_1, sonnet_2]"

definition result_a :: SearchResult where
  "result_a =
     \<lparr>title = ''Sonnet 1: Test'', title_spans = [(7, 9)],
      line_matches = [\<lparr>line_no = 2, line_text = ''we desire increase'', spans = [(3, 9)]\<rparr>],
      matches = 2\<rparr>"

definition result_b :: SearchResult where
  "result_b =
     \<lparr>title = ''Sonnet 1: Test'', title_spans = [(0, 6), (7, 9)],
      line_matches =
        [\<lparr>line_no = 1, line_text = ''From fairest creatures'', spans = [(5, 12)]\<rparr>,
         \<lparr>line_no = 2, line_text = ''we desire increase'', spans = [(10, 18), (0, 2)]\<rparr>],
      matches = 5\<rparr>"

definition result_c :: SearchResult where
  "result_c =
     \<lparr>title = ''Sonnet 1: Test'', title_spans = [],
      line_matches = [\<lparr>line_no = 1, line_text = ''From fairest creatures'', spans = [(0, 4)]\<rparr>],
      matches = 1\<rparr>"

section \<open>Objects and references\<close>

text \<open>
  The functions above work on values. Whether \<^verbatim>\<open>combine_with\<close> changes the objects
  it is given depends on which objects the result shares with them, so here the
  objects live in a store. An address is an index into the store; allocation appends.
  The mutable objects are the lists of spans, the lists of line matches and the
  \<^verbatim>\<open>LineMatch\<close> and \<^verbatim>\<open>SearchResult\<close> objects, whose attributes hold addresses;
  integers, strings and tuples are immutable and stay values. Reading an address that
  does not hold an object of the expected class fails with \<open>None\<close>.
\<close>

datatype obj =
    SpanList "span list"
  | LineMatchList "nat list"
  | LineMatchObj int string nat
  | SearchResultObj string nat nat int

type_synonym heap = "obj list"

definition alloc :: "heap \<Rightarrow> obj \<Rightarrow> heap \<times> nat" where
  "alloc h ob = (h @ [ob], length h)"

definition get_obj :: "heap \<Rightarrow> nat \<Rightarrow> obj option" where
  "get_obj h a = (if a < length h then Some (h ! a) else None)"

definition set_obj :: "heap \<Rightarrow> nat \<Rightarrow> obj \<Rightarrow> heap option" where
  "set_obj h a ob = (if a < length h then Some (h[a := ob]) else None)"

definition get_span_list :: "heap \<Rightarrow> nat \<Rightarrow> span list option" where
  "get_span_list h a = (case get_obj h a of Some (SpanList xs) \<Rightarrow> Some xs | _ \<Rightarrow> None)"

definition get_linematch_list :: "heap \<Rightarrow> nat \<Rightarrow> nat list option" where
  "get_linematch_list h a = (case get_obj h a of Some (LineMatchList as) \<Rightarrow> Some as | _ \<Rightarrow> None)"

definition get_linematch :: "heap \<Rightarrow> nat \<Rightarrow> (int \<times> string \<times> nat) option" where
  "get_linematch h a =
     (case get_obj h a of Some (LineMatchObj ln tx sp) \<Rightarrow> Some (ln, tx, sp) | _ \<Rightarrow> None)"

definition get_result :: "heap \<Rightarrow> nat \<Rightarrow> (string \<times> nat \<times> nat \<times> int) option" where
  "get_result h a =
     (case get_obj h a of Some (SearchResultObj t ts lms m) \<Rightarrow> Some (t, ts, lms, m) | _ \<Rightarrow> None)"

text \<open>Attribute assignments.\<close>

definition set_spans :: "heap \<Rightarrow> nat \<Rightarrow> nat \<Rightarrow> heap option" where
  "set_spans h a sp =
     do { (ln, tx, _) \<leftarrow> get_linematch h a; set_obj h a (LineMatchObj ln tx sp) }"

definition set_matches :: "heap \<Rightarrow> nat \<Rightarrow> int \<Rightarrow> heap option" where
  "set_matches h a m =
     do { (t, ts, lms, _) \<leftarrow> get_result h a; set_obj h a (SearchResultObj t ts lms m) }"

definition set_title_spans :: "heap \<Rightarrow> nat \<Rightarrow> nat \<Rightarrow> heap option" where
  "set_title_spans h a ts =
     do { (t, _, lms, m) \<leftarrow> get_result h a; set_obj h a (SearchResultObj t ts lms m) }"

definition set_line_matches :: "heap \<Rightarrow> nat \<Rightarrow> nat \<Rightarrow> heap option" where
  "set_line_matches h a lms =
     do { (t, ts, _, m) \<leftarrow> get_result h a; set_obj h a (SearchResultObj t ts lms m) }"

text \<open>\<^verbatim>\<open>LineMatch.copy\<close>: a new object with a new list of the same spans.\<close>

definition LineMatch_copy :: "heap \<Rightarrow> nat \<Rightarrow> (heap \<times> nat) option" where
  "LineMatch_copy h a =
     do {
       (ln, tx, sp) \<leftarrow> get_linematch h a;
       xs \<leftarrow> get_span_list h sp;
       let (h1, sp') = alloc h (SpanList xs);
       Some (alloc h1 (LineMatchObj ln tx sp'))
     }"

text \<open>The comprehension \<^verbatim>\<open>[lm.copy() for lm in self.line_matches]\<close>.\<close>

fun copy_all :: "heap \<Rightarrow> nat list \<Rightarrow> (heap \<times> nat list) option" where
  "copy_all h [] = Some (h, [])"
| "copy_all h (a # as) =
     do {
       (h1, a') \<leftarrow> LineMatch_copy h a;
       (h2, as') \<leftarrow> copy_all h1 as;
       Some (h2, a' # as')
     }"

text \<open>\<^verbatim>\<open>SearchResult.copy\<close>.\<close>

definition SearchResult_copy :: "heap \<Rightarrow> nat \<Rightarrow> (heap \<times> nat) option" where
  "SearchResult_copy h r =
     do {
       (t, ts, lms, m) \<leftarrow> get_result h r;
       xs \<leftarrow> get_span_list h ts;
       let (h1, ts') = alloc h (SpanList xs);
       as \<leftarrow> get_linematch_list h1 lms;
       (h2, as') \<leftarrow> copy_all h1 as;
       let (h3, lms') = alloc h2 (LineMatchList as');
       Some (alloc h3 (SearchResultObj t ts' lms' m))
     }"

text \<open>The comprehension that fills \<^verbatim>\<open>lines_by_no\<close> with copies of the line matches
  of \<open>self\<close>. The dictionary itself is local to the call; its values are addresses.\<close>

fun lines_by_no_init_h ::
  "heap \<Rightarrow> nat list \<Rightarrow> (int, nat) dict \<Rightarrow> (heap \<times> (int, nat) dict) option" where
  "lines_by_no_init_h h [] d = Some (h, d)"
| "lines_by_no_init_h h (a # as) d =
     do {
       (ln, _, _) \<leftarrow> get_linematch h a;
       (h1, a') \<leftarrow> LineMatch_copy h a;
       lines_by_no_init_h h1 as (dict_set d ln a')
     }"

text \<open>The loop over the line matches of \<open>other\<close>. The assignment to \<^verbatim>\<open>.spans\<close>
  writes to the object the dictionary holds, and stores a new list, the concatenation.\<close>

fun merge_lines_h ::
  "heap \<Rightarrow> nat list \<Rightarrow> (int, nat) dict \<Rightarrow> (heap \<times> (int, nat) dict) option" where
  "merge_lines_h h [] d = Some (h, d)"
| "merge_lines_h h (b # bs) d =
     do {
       (ln, _, sp) \<leftarrow> get_linematch h b;
       case map_of d ln of
         Some target \<Rightarrow>
           do {
             (_, _, sp') \<leftarrow> get_linematch h target;
             xs \<leftarrow> get_span_list h sp';
             ys \<leftarrow> get_span_list h sp;
             let (h1, new) = alloc h (SpanList (xs @ ys));
             h2 \<leftarrow> set_spans h1 target new;
             merge_lines_h h2 bs d
           }
       | None \<Rightarrow>
           do {
             (h1, b') \<leftarrow> LineMatch_copy h b;
             merge_lines_h h1 bs (dict_set d ln b')
           }
     }"

text \<open>The keys \<^verbatim>\<open>x.line_no\<close> that \<^verbatim>\<open>sorted\<close> computes for the values.\<close>

fun line_nos_h :: "heap \<Rightarrow> nat list \<Rightarrow> int list option" where
  "line_nos_h h [] = Some []"
| "line_nos_h h (a # as) =
     do {
       (ln, _, _) \<leftarrow> get_linematch h a;
       lns \<leftarrow> line_nos_h h as;
       Some (ln # lns)
     }"

text \<open>\<^verbatim>\<open>SearchResult.combine_with\<close> on the store: the new store and the address of the
  combined result.\<close>

definition combine_with_h :: "heap \<Rightarrow> nat \<Rightarrow> nat \<Rightarrow> (heap \<times> nat) option" where
  "combine_with_h h self other =
     do {
       (h1, combined) \<leftarrow> SearchResult_copy h self;
       (_, ts_self, lms_self, m_self) \<leftarrow> get_result h1 self;
       (_, ts_other, lms_other, m_other) \<leftarrow> get_result h1 other;
       h2 \<leftarrow> set_matches h1 combined (m_self + m_other);
       xs \<leftarrow> get_span_list h2 ts_self;
       ys \<leftarrow> get_span_list h2 ts_other;
       let (h3, ts_new) = alloc h2 (SpanList (sort (xs @ ys)));
       h4 \<leftarrow> set_title_spans h3 combined ts_new;
       as \<leftarrow> get_linematch_list h4 lms_self;
       (h5, d) \<leftarrow> lines_by_no_init_h h4 as [];
       bs \<leftarrow> get_linematch_list h5 lms_other;
       (h6, d') \<leftarrow> merge_lines_h h5 bs d;
       keys \<leftarrow> line_nos_h h6 (dict_values d');
       let (h7, lms_new) = alloc h6 (LineMatchList (map snd (sort_key fst (zip keys (dict_values d')))));
       h8 \<leftarrow> set_line_matches h7 combined lms_new;
       Some (h8, combined)
     }"

text \<open>The values a store holds at an address: the line match, the list of line matches
  and the search result, as the records of the first part.\<close>

definition abs_linematch :: "heap \<Rightarrow> nat \<Rightarrow> LineMatch option" where
  "abs_linematch h a =
     do {
       (ln, tx, sp) \<leftarrow> get_linematch h a;
       xs \<leftarrow> get_span_list h sp;
       Some \<lparr>line_no = ln, line_text = tx, spans = xs\<rparr>
     }"

fun abs_linematches :: "heap \<Rightarrow> nat list \<Rightarrow> LineMatch list option" where
  "abs_linematches h [] = Some []"
| "abs_linematches h (a # as) =
     do {
       lm \<leftarrow> abs_linematch h a;
       lms \<leftarrow> abs_linematches h as;
       Some (lm # lms)
     }"

definition abs_result :: "heap \<Rightarrow> nat \<Rightarrow> SearchResult option" where
  "abs_result h r =
     do {
       (t, ts, lms, m) \<leftarrow> get_result h r;
       xs \<leftarrow> get_span_list h ts;
       as \<leftarrow> get_linematch_list h lms;
       ls \<leftarrow> abs_linematches h as;
       Some \<lparr>title = t, title_spans = xs, line_matches = ls, matches = m\<rparr>
     }"

text \<open>A store with the example results \<^const>\<open>result_a\<close> at address 3 and
  \<^const>\<open>result_b\<close> at address 11.\<close>

definition example_heap :: heap where
  "example_heap =
     [SpanList [(7, 9)],
      SpanList [(3, 9)],
      LineMatchObj 2 ''we desire increase'' 1,
      SearchResultObj ''Sonnet 1: Test'' 0 4 2,
      LineMatchList [2],
      SpanList [(0, 6), (7, 9)],
      SpanList [(5, 12)],
      LineMatchObj 1 ''From fairest creatures'' 6,
      SpanList [(10, 18), (0, 2)],
      LineMatchObj 2 ''we desire increase'' 8,
      LineMatchList [7, 9],
      SearchResultObj ''Sonnet 1: Test'' 5 10 5]"

text \<open>
  Relations between stores used in the proofs: \<open>frame h0 h\<close> says that \<open>h\<close> holds
  the objects of \<open>h0\<close> unchanged at their addresses; \<open>keeps h h'\<close> says that the
  lists and results readable in \<open>h\<close> read the same in \<open>h'\<close>; \<open>related h0 h d D\<close>
  says that the dictionary \<open>d\<close> of addresses holds, key by key, objects allocated after
  \<open>h0\<close>, all different, whose values in \<open>h\<close> are the entries of the dictionary \<open>D\<close>.
\<close>

definition frame :: "heap \<Rightarrow> heap \<Rightarrow> bool" where
  "frame h0 h = (length h0 \<le> length h \<and> take (length h0) h = h0)"

definition keeps :: "heap \<Rightarrow> heap \<Rightarrow> bool" where
  "keeps h h' =
     ((\<forall>x v. get_span_list h x = Some v \<longrightarrow> get_span_list h' x = Some v) \<and>
      (\<forall>x v. get_linematch_list h x = Some v \<longrightarrow> get_linematch_list h' x = Some v) \<and>
      (\<forall>x v. get_result h x = Some v \<longrightarrow> get_result h' x = Some v))"

definition related ::
  "heap \<Rightarrow> heap \<Rightarrow> (int, nat) dict \<Rightarrow> (int, LineMatch) dict \<Rightarrow> bool" where
  "related h0 h d D =
     (list_all2 (\<lambda>(k, t) (k', lm). k' = k \<and> length h0 \<le> t \<and> abs_linematch h t = Some lm) d D \<and>
      distinct (map snd d))"

section \<open>Properties of the stemmer\<close>

lemma lower_char_idem: "lower_char (lower_char c) = lower_char c"
proof -
  let ?n = "of_char c :: nat"
  show ?thesis
  proof (cases "(65 \<le> ?n \<and> ?n \<le> 90) \<or> (192 \<le> ?n \<and> ?n \<le> 214) \<or> (216 \<le> ?n \<and> ?n \<le> 222)")
    case True
    then have "?n + 32 < 256" by arith
    then have "of_char (char_of (?n + 32)) = ?n + 32" by simp
    moreover from True have
      "\<not> ((65 \<le> ?n + 32 \<and> ?n + 32 \<le> 90) \<or> (192 \<le> ?n + 32 \<and> ?n + 32 \<le> 214) \<or>
          (216 \<le> ?n + 32 \<and> ?n + 32 \<le> 222))"
      by arith
    ultimately have "lower_char (char_of (?n + 32)) = char_of (?n + 32)"
      by (simp only: lower_char_def Let_def if_False)
    with True show ?thesis
      by (simp only: lower_char_def Let_def if_True)
  next
    case False
    then have "lower_char c = c" by (simp only: lower_char_def Let_def if_False)
    then show ?thesis by simp
  qed
qed

lemma lower_idem: "lower (lower s) = lower s"
  by (simp add: lower_def lower_char_idem)

text \<open>The table of the specification's lowercasing, by code points.\<close>

lemma ascii_upper: "''ABCDEFGHIJKLMNOPQRSTUVWXYZ'' = map char_of [65..<91::nat]"
  by code_simp

lemma ascii_lower: "''abcdefghijklmnopqrstuvwxyz'' = map (\<lambda>n. char_of (n + 32)) [65..<91::nat]"
  by code_simp

lemma latin_lower:
  "map char_of ([224..<247] @ [248..<255] :: nat list) =
   map (\<lambda>n. char_of (n + 32)) ([192..<215] @ [216..<223] :: nat list)"
proof -
  have "([224..<247] @ [248..<255] :: nat list) = map (\<lambda>n. n + 32) ([192..<215] @ [216..<223])"
    by code_simp
  then show ?thesis by (simp only: map_map comp_def)
qed

lemma letters_codes:
  "upper_letters = map char_of letter_codes"
  "lower_letters = map (\<lambda>n. char_of (n + 32)) letter_codes"
  unfolding upper_letters_def lower_letters_def letter_codes_def ascii_upper ascii_lower latin_lower
  by (simp_all only: map_append)

lemma map_of_codes:
  "\<forall>n \<in> set ns. n < (256 :: nat) \<Longrightarrow>
   map_of (zip (map char_of ns) (map (\<lambda>n. char_of (n + 32)) ns)) c =
     (if of_char c \<in> set ns then Some (char_of (of_char c + 32 :: nat)) else None)"
proof (induction ns)
  case Nil
  show ?case by simp
next
  case (Cons n ns)
  then have n: "n < 256" by simp
  have "c = char_of n \<longleftrightarrow> of_char c = n"
    using n by auto
  with Cons show ?case by auto
qed

lemma lower_char_spec: "lower_char c = spec_lower_char c"
proof -
  have "\<forall>n \<in> set letter_codes. n < 256"
    unfolding letter_codes_def set_append set_upt by auto
  from map_of_codes [OF this, of c]
  have "spec_lower_char c =
      (if of_char c \<in> set letter_codes then char_of (of_char c + 32 :: nat) else c)"
    by (simp add: spec_lower_char_def letters_codes)
  moreover have "(of_char c :: nat) \<in> set letter_codes \<longleftrightarrow>
      (65 \<le> (of_char c :: nat) \<and> (of_char c :: nat) \<le> 90) \<or>
      (192 \<le> (of_char c :: nat) \<and> (of_char c :: nat) \<le> 214) \<or>
      (216 \<le> (of_char c :: nat) \<and> (of_char c :: nat) \<le> 222)"
    by (simp only: letter_codes_def set_append set_upt Un_iff atLeastLessThan_iff) arith
  ultimately show ?thesis
    by (simp only: lower_char_def Let_def)
qed

lemma lower_spec: "lower s = spec_lower s"
  by (simp add: lower_def spec_lower_def lower_char_spec)

text \<open>The suffix test and the slice of the code against those of the specification.\<close>

lemma endswith_spec: "endswith w suf = spec_ends_with w suf"
proof -
  have "take (length suf) (rev w) = rev (drop (length w - length suf) w)"
    by (rule take_rev)
  then have s: "spec_ends_with w suf \<longleftrightarrow> drop (length w - length suf) w = suf"
    by (simp add: spec_ends_with_def)
  have "length suf \<le> length w" if "drop (length w - length suf) w = suf"
  proof -
    from that have "length (drop (length w - length suf) w) = length suf" by simp
    then show ?thesis by simp
  qed
  with s show ?thesis
    by (auto simp: endswith_def)
qed

lemma drop_last_spec: "drop_last n w = spec_drop_last n w"
  by (simp add: drop_last_def spec_drop_last_def drop_rev)

lemma last_endswith: "endswith w s \<Longrightarrow> s \<noteq> [] \<Longrightarrow> last w = last s"
  unfolding endswith_def
  by (metis last_drop length_0_conv diff_less length_greater_0_conv drop_eq_Nil2)

lemma normalize_spec: "normalize token = spec_normalize token"
  by (simp add: normalize_def spec_normalize_def replace_char_def lower_spec
      conj_commute conj_left_commute)

lemma step1a_spec: "step1a w = apply_first spec_pass1 w"
  by (simp add: step1a_def spec_pass1_def endswith_spec [symmetric] drop_last_spec [symmetric])

lemma endswith_eed_ed: "endswith w ''eed'' \<Longrightarrow> endswith w ''ed''"
proof -
  assume h: "endswith w ''eed''"
  then have len: "3 \<le> length w" and d: "drop (length w - 3) w = ''eed''"
    by (simp_all add: endswith_def numeral_3_eq_3)
  from len have "length w - 2 = Suc (length w - 3)"
    by arith
  then have "drop (length w - 2) w = drop 1 (drop (length w - 3) w)"
    by simp
  with d have "drop (length w - 2) w = ''ed''"
    by simp
  with len show ?thesis
    by (simp add: endswith_def numeral_2_eq_2)
qed

lemma step1b_spec: "step1b w = apply_first spec_pass2 w"
proof -
  have "\<not> endswith w ''ing''" if "endswith w ''ed''"
    using last_endswith [OF that] last_endswith [of w "''ing''"] by auto
  then show ?thesis
    using endswith_eed_ed [of w]
    by (auto simp: step1b_def spec_pass2_def endswith_spec [symmetric] drop_last_spec [symmetric])
qed

lemma step2_spec: "step2 w = apply_first spec_pass3 w"
  by (simp add: step2_def spec_pass3_def endswith_spec [symmetric] drop_last_spec [symmetric])

text \<open>
  Claim C7: for every token, \<open>stem\<close> computes what the reference pipeline of the
  specification computes: one removal of apostrophe, comma and period, one lowercasing,
  then the three passes, each applying the first rule whose suffix and length
  condition hold and leaving a word that matches no rule unchanged. The pipeline has
  its own lowercasing, suffix test and removal of the last characters, so the equation
  also says that the code's \<open>lower\<close>, \<open>endswith\<close> and slices are those.
\<close>

theorem stem_refines_spec: "stem token = spec_stem token"
proof -
  have "lower (normalize token) = spec_normalize token"
    by (simp add: normalize_def lower_idem) (simp add: normalize_def [symmetric] normalize_spec)
  then show ?thesis
    by (simp add: stem_def spec_stem_def PorterStemmer_stem_def step1a_spec step1b_spec
        step2_spec)
qed

text \<open>
  Claim C3, as amended: \<open>stem\<close> maps \<open>Sonnets\<close> to \<open>sonnet\<close> and \<open>loving\<close>
  to \<open>lov\<close>; for \<open>beauty's\<close> the apostrophe is removed and the plural rule of the
  first step then drops the final \<open>s\<close>, so the result is \<open>beauty\<close>.
\<close>

theorem stem_examples:
  "stem ''Sonnets'' = ''sonnet'' \<and> stem ''loving'' = ''lov'' \<and> stem ''beauty's'' = ''beauty''"
  by code_simp

text \<open>Claim C3 as stated gives \<open>beautys\<close> for the third input, which is not what
  \<open>stem\<close> returns.\<close>

theorem stem_beautys_counterexample: "stem ''beauty's'' \<noteq> ''beautys''"
  by code_simp

section \<open>Properties of dictionaries\<close>

lemma map_of_dict_set: "map_of (dict_set d k v) = (map_of d)(k \<mapsto> v)"
  by (induction d k v rule: dict_set.induct) (auto simp: fun_eq_iff)

lemma keys_dict_set: "fst ` set (dict_set d k v) = insert k (fst ` set d)"
  by (induction d k v rule: dict_set.induct) auto

lemma dict_set_new: "k \<notin> fst ` set d \<Longrightarrow> dict_set d k v = d @ [(k, v)]"
  by (induction d k v rule: dict_set.induct) auto

lemma dict_set_None: "map_of d k = None \<Longrightarrow> dict_set d k v = d @ [(k, v)]"
  by (simp add: dict_set_new map_of_eq_None_iff)

lemma distinct_dict_set: "distinct (map fst d) \<Longrightarrow> distinct (map fst (dict_set d k v))"
  by (induction d k v rule: dict_set.induct) (auto simp: keys_dict_set)

lemma set_dict_set: "set (dict_set d k v) \<subseteq> insert (k, v) (set d)"
  by (induction d k v rule: dict_set.induct) auto

section \<open>Properties of combine_with\<close>

lemma keyed_dict_set:
  "\<forall>(k, v) \<in> set d. line_no v = k \<Longrightarrow> line_no v' = k' \<Longrightarrow>
   \<forall>(k, v) \<in> set (dict_set d k' v'). line_no v = k"
  using set_dict_set [of d k' v'] by auto

lemma dict_spans_dict_set:
  "dict_spans (dict_set d k v) k' = (if k' = k then spans v else dict_spans d k')"
  by (simp add: dict_spans_def map_of_dict_set)

lemma fold_dict_set_distinct:
  "distinct (map f xs) \<Longrightarrow> fst ` set d \<inter> f ` set xs = {} \<Longrightarrow>
   fold (\<lambda>x d. dict_set d (f x) x) xs d = d @ map (\<lambda>x. (f x, x)) xs"
proof (induction xs arbitrary: d)
  case Nil
  then show ?case by simp
next
  case (Cons x xs)
  from Cons.prems have new: "f x \<notin> fst ` set d" by auto
  have "fst ` set (d @ [(f x, x)]) \<inter> f ` set xs = {}"
    using Cons.prems by auto
  with Cons.prems Cons.IH [of "d @ [(f x, x)]"] new show ?case
    by (simp add: dict_set_new)
qed

lemma lines_by_no_init_distinct:
  "distinct (map line_no xs) \<Longrightarrow> lines_by_no_init xs = map (\<lambda>lm. (line_no lm, lm)) xs"
  using fold_dict_set_distinct [of line_no xs "[]"] by (simp add: lines_by_no_init_def)

lemma init_fold_inv:
  "distinct (map fst d) \<Longrightarrow> \<forall>(k, v) \<in> set d. line_no v = k \<Longrightarrow>
   distinct (map fst (fold (\<lambda>lm d. dict_set d (line_no lm) lm) xs d)) \<and>
   (\<forall>(k, v) \<in> set (fold (\<lambda>lm d. dict_set d (line_no lm) lm) xs d). line_no v = k) \<and>
   fst ` set (fold (\<lambda>lm d. dict_set d (line_no lm) lm) xs d) = fst ` set d \<union> line_no ` set xs"
proof (induction xs arbitrary: d)
  case Nil
  then show ?case by simp
next
  case (Cons x xs)
  have "distinct (map fst (dict_set d (line_no x) x))"
    using Cons.prems(1) by (rule distinct_dict_set)
  moreover have "\<forall>(k, v) \<in> set (dict_set d (line_no x) x). line_no v = k"
    using Cons.prems(2) by (rule keyed_dict_set) simp
  ultimately show ?case
    using Cons.IH [of "dict_set d (line_no x) x"] by (simp add: keys_dict_set)
qed

lemma merge_line_inv:
  assumes "distinct (map fst d)" and "\<forall>(k, v) \<in> set d. line_no v = k"
  shows "distinct (map fst (merge_line lm d))"
    and "\<forall>(k, v) \<in> set (merge_line lm d). line_no v = k"
    and "fst ` set (merge_line lm d) = insert (line_no lm) (fst ` set d)"
proof -
  show "distinct (map fst (merge_line lm d))"
    using assms(1) by (simp add: merge_line_def Let_def distinct_dict_set split: option.split)
  show "fst ` set (merge_line lm d) = insert (line_no lm) (fst ` set d)"
    by (simp add: merge_line_def Let_def keys_dict_set split: option.split)
  show "\<forall>(k, v) \<in> set (merge_line lm d). line_no v = k"
  proof (cases "map_of d (line_no lm)")
    case None
    then show ?thesis
      using keyed_dict_set [OF assms(2), of lm "line_no lm"] by (simp add: merge_line_def Let_def)
  next
    case (Some cur)
    then have "(line_no lm, cur) \<in> set d" by (rule map_of_SomeD)
    with assms(2) have "line_no cur = line_no lm" by auto
    then have "line_no (cur\<lparr>spans := spans cur @ spans lm\<rparr>) = line_no lm" by simp
    from keyed_dict_set [OF assms(2) this] Some show ?thesis
      by (simp add: merge_line_def Let_def)
  qed
qed

lemma merge_fold_inv:
  "distinct (map fst d) \<Longrightarrow> \<forall>(k, v) \<in> set d. line_no v = k \<Longrightarrow>
   distinct (map fst (fold merge_line ys d)) \<and>
   (\<forall>(k, v) \<in> set (fold merge_line ys d). line_no v = k) \<and>
   fst ` set (fold merge_line ys d) = fst ` set d \<union> line_no ` set ys"
proof (induction ys arbitrary: d)
  case Nil
  then show ?case by simp
next
  case (Cons y ys)
  from merge_line_inv [OF Cons.prems, of y] Cons.IH [of "merge_line y d"]
  show ?case by simp
qed

lemma lines_by_no_inv:
  "distinct (map fst (lines_by_no a b)) \<and>
   (\<forall>(k, v) \<in> set (lines_by_no a b). line_no v = k) \<and>
   fst ` set (lines_by_no a b) = line_no ` set (line_matches a) \<union> line_no ` set (line_matches b)"
proof -
  have i: "distinct (map fst (lines_by_no_init (line_matches a))) \<and>
     (\<forall>(k, v) \<in> set (lines_by_no_init (line_matches a)). line_no v = k) \<and>
     fst ` set (lines_by_no_init (line_matches a)) = line_no ` set (line_matches a)"
    using init_fold_inv [of "[]" "line_matches a"] by (simp add: lines_by_no_init_def)
  then show ?thesis
    using merge_fold_inv [of "lines_by_no_init (line_matches a)" "line_matches b"]
    by (simp add: lines_by_no_def)
qed

lemma dict_spans_merge_line:
  "dict_spans (merge_line y d) k = dict_spans d k @ (if line_no y = k then spans y else [])"
  by (auto simp: merge_line_def Let_def dict_spans_def map_of_dict_set split: option.split)

lemma dict_spans_merge_fold:
  "dict_spans (fold merge_line ys d) k = dict_spans d k @ spans_for k ys"
  by (induction ys arbitrary: d) (simp_all add: dict_spans_merge_line spans_for_def)

lemma spans_for_absent: "k \<notin> line_no ` set xs \<Longrightarrow> spans_for k xs = []"
  by (induction xs) (auto simp: spans_for_def)

lemma dict_spans_init:
  "distinct (map line_no xs) \<Longrightarrow> dict_spans (map (\<lambda>lm. (line_no lm, lm)) xs) k = spans_for k xs"
proof (induction xs)
  case Nil
  then show ?case by (simp add: dict_spans_def spans_for_def)
next
  case (Cons x xs)
  show ?case
  proof (cases "line_no x = k")
    case True
    with Cons.prems have "spans_for k xs = []"
      by (intro spans_for_absent) auto
    with True show ?thesis
      by (simp add: dict_spans_def spans_for_def)
  next
    case False
    with Cons show ?thesis
      by (simp add: dict_spans_def spans_for_def)
  qed
qed

lemma dict_spans_lines_by_no:
  "unique_lines a \<Longrightarrow>
   dict_spans (lines_by_no a b) k = spans_for k (line_matches a) @ spans_for k (line_matches b)"
  by (simp add: lines_by_no_def dict_spans_merge_fold unique_lines_def
      lines_by_no_init_distinct dict_spans_init)

lemma spans_for_values:
  "distinct (map fst d) \<Longrightarrow> \<forall>(k, v) \<in> set d. line_no v = k \<Longrightarrow>
   spans_for k (map snd d) = dict_spans d k"
proof (induction d)
  case Nil
  then show ?case by (simp add: dict_spans_def spans_for_def)
next
  case (Cons p d)
  obtain k' v' where p: "p = (k', v')" by (cases p)
  with Cons.prems have kv: "line_no v' = k'" by simp
  show ?case
  proof (cases "k' = k")
    case True
    with Cons.prems p have "k \<notin> fst ` set d" by auto
    moreover have "line_no ` set (map snd d) = fst ` set d"
      using Cons.prems(2) by (force simp: image_iff)
    ultimately have "spans_for k (map snd d) = []"
      by (intro spans_for_absent) simp
    with True p kv show ?thesis
      by (simp add: dict_spans_def spans_for_def)
  next
    case False
    with Cons p kv show ?thesis
      by (simp add: dict_spans_def spans_for_def)
  qed
qed

lemma spans_for_sort_key: "spans_for k (sort_key line_no xs) = spans_for k xs"
  by (simp add: spans_for_def sort_key_stable)

lemma line_matches_combine_with:
  "line_matches (combine_with a b) = sort_key line_no (dict_values (lines_by_no a b))"
  by (simp add: combine_with_def)

lemma spans_for_combine_with:
  assumes "unique_lines a"
  shows "spans_for k (line_matches (combine_with a b)) =
         spans_for k (line_matches a) @ spans_for k (line_matches b)"
proof -
  have "spans_for k (line_matches (combine_with a b)) = dict_spans (lines_by_no a b) k"
    using lines_by_no_inv [of a b]
    by (simp add: line_matches_combine_with spans_for_sort_key dict_values_def spans_for_values)
  with assms show ?thesis
    by (simp add: dict_spans_lines_by_no)
qed

lemma line_nos_combine_with:
  "sorted_wrt (<) (map line_no (line_matches (combine_with a b))) \<and>
   line_no ` set (line_matches (combine_with a b)) =
     line_no ` set (line_matches a) \<union> line_no ` set (line_matches b)"
proof -
  let ?vs = "map snd (lines_by_no a b)"
  have keys: "map line_no ?vs = map fst (lines_by_no a b)"
    using lines_by_no_inv [of a b] by auto
  have "mset (map line_no (sort_key line_no ?vs)) = mset (map line_no ?vs)"
    by (simp only: mset_map mset_sort)
  then have "distinct (map line_no (sort_key line_no ?vs)) = distinct (map line_no ?vs)"
    by (rule mset_eq_imp_distinct_iff)
  moreover have "distinct (map fst (lines_by_no a b))"
    using lines_by_no_inv [of a b] by blast
  then have "distinct (map line_no ?vs)"
    by (simp only: keys)
  ultimately have "distinct (map line_no (sort_key line_no ?vs))"
    by (simp only:)
  moreover have "sorted (map line_no (sort_key line_no ?vs))"
    by (rule sorted_sort_key)
  moreover have "line_no ` set ?vs = fst ` set (lines_by_no a b)"
    using keys by (metis list.set_map)
  ultimately show ?thesis
    using lines_by_no_inv [of a b]
    by (simp add: line_matches_combine_with dict_values_def strict_sorted_iff)
qed

lemma unique_lines_combine_with: "unique_lines (combine_with a b)"
  using line_nos_combine_with [of a b] by (simp add: unique_lines_def strict_sorted_iff)

lemma spans_for_unique:
  "distinct (map line_no xs) \<Longrightarrow> lm \<in> set xs \<Longrightarrow> spans_for (line_no lm) xs = spans lm"
proof (induction xs)
  case Nil
  then show ?case by simp
next
  case (Cons x xs)
  show ?case
  proof (cases "lm = x")
    case True
    with Cons.prems have "spans_for (line_no x) xs = []"
      by (intro spans_for_absent) auto
    with True show ?thesis by (simp add: spans_for_def)
  next
    case False
    with Cons.prems have "lm \<in> set xs" and "line_no x \<noteq> line_no lm" by auto
    with Cons show ?thesis by (simp add: spans_for_def)
  qed
qed

lemma count_map_Pair:
  "count (mset (map (Pair l) ss)) (k, s) = (if l = k then count (mset ss) s else 0)"
  by (induction ss) auto

lemma count_line_span_pairs:
  "count (mset (line_span_pairs xs)) (k, s) = count (mset (spans_for k xs)) s"
proof (induction xs)
  case Nil
  then show ?case by (simp add: line_span_pairs_def spans_for_def)
next
  case (Cons x xs)
  have "line_span_pairs (x # xs) = map (Pair (line_no x)) (spans x) @ line_span_pairs xs"
    by (simp add: line_span_pairs_def)
  moreover have "spans_for k (x # xs) = (if line_no x = k then spans x else []) @ spans_for k xs"
    by (simp add: spans_for_def)
  ultimately show ?case
    using Cons by (simp add: count_map_Pair del: mset_map)
qed

lemma mset_pairs_combine_with:
  assumes "unique_lines a"
  shows "mset (line_span_pairs (line_matches (combine_with a b))) =
         mset (line_span_pairs (line_matches a)) + mset (line_span_pairs (line_matches b))"
proof (rule multiset_eqI)
  fix p :: "int \<times> span"
  obtain k s where p: "p = (k, s)" by (cases p)
  show "count (mset (line_span_pairs (line_matches (combine_with a b)))) p =
        count (mset (line_span_pairs (line_matches a)) + mset (line_span_pairs (line_matches b))) p"
    unfolding p by (simp add: count_line_span_pairs spans_for_combine_with [OF assms])
qed

lemma span_count_pairs:
  "(\<Sum>lm\<leftarrow>xs. int (length (spans lm))) = int (size (mset (line_span_pairs xs)))"
  by (induction xs) (simp_all add: line_span_pairs_def)

lemma count_ok_combine_with:
  assumes "unique_lines a" and "count_ok a" and "count_ok b"
  shows "count_ok (combine_with a b)"
proof -
  have "title_spans (combine_with a b) = sort (title_spans a @ title_spans b)"
    and "matches (combine_with a b) = matches a + matches b"
    by (simp_all add: combine_with_def)
  with assms(2,3) show ?thesis
    by (simp add: count_ok_def span_count_pairs mset_pairs_combine_with [OF assms(1)])
qed

lemma sorted_span_list:
  "sorted (xs :: span list) = sorted_wrt (\<lambda>(s1, e1) (s2, e2). s1 < s2 \<or> (s1 = s2 \<and> e1 \<le> e2)) xs"
proof -
  have "(\<le>) = (\<lambda>(s1, e1) (s2 :: int, e2 :: int). s1 < s2 \<or> (s1 = s2 \<and> e1 \<le> e2))"
    by (auto simp: fun_eq_iff)
  then show ?thesis by simp
qed

text \<open>
  Claim C5: for results \<open>a\<close> and \<open>b\<close>, where \<open>a\<close> has at most one line match
  per line number as the data model requires, \<open>c = a.combine_with(b)\<close> has
  \<open>c.matches = a.matches + b.matches\<close>; \<open>c.title_spans\<close> is sorted by start, then
  end, and holds the title spans of both with their duplicates; \<open>c.line_matches\<close> has
  strictly ascending line numbers, which are exactly the line numbers of \<open>a\<close> and of
  \<open>b\<close>; and the spans of each entry are the spans \<open>a\<close> has for that line followed by
  the spans \<open>b\<close> has for it, neither sorted nor deduplicated.
\<close>

theorem combine_with_fields:
  assumes "unique_lines a"
  shows "matches (combine_with a b) = matches a + matches b \<and>
    sorted_wrt (\<lambda>(s1, e1) (s2, e2). s1 < s2 \<or> (s1 = s2 \<and> e1 \<le> e2))
      (title_spans (combine_with a b)) \<and>
    mset (title_spans (combine_with a b)) = mset (title_spans a) + mset (title_spans b) \<and>
    sorted_wrt (<) (map line_no (line_matches (combine_with a b))) \<and>
    line_no ` set (line_matches (combine_with a b)) =
      line_no ` set (line_matches a) \<union> line_no ` set (line_matches b) \<and>
    (\<forall>lm \<in> set (line_matches (combine_with a b)).
       spans lm = spans_for (line_no lm) (line_matches a) @ spans_for (line_no lm) (line_matches b))"
proof -
  have m: "matches (combine_with a b) = matches a + matches b"
    by (simp add: combine_with_def)
  have t: "title_spans (combine_with a b) = sort (title_spans a @ title_spans b)"
    by (simp add: combine_with_def)
  have s: "sorted_wrt (\<lambda>(s1, e1) (s2, e2). s1 < s2 \<or> (s1 = s2 \<and> e1 \<le> e2))
      (title_spans (combine_with a b))"
    unfolding t sorted_span_list [symmetric] by (rule sorted_sort)
  have ms: "mset (title_spans (combine_with a b)) = mset (title_spans a) + mset (title_spans b)"
    unfolding t by simp
  have sp: "spans lm = spans_for (line_no lm) (line_matches a) @ spans_for (line_no lm) (line_matches b)"
    if "lm \<in> set (line_matches (combine_with a b))" for lm
  proof -
    have "distinct (map line_no (line_matches (combine_with a b)))"
      using unique_lines_combine_with [of a b] by (simp add: unique_lines_def)
    from spans_for_unique [OF this that] spans_for_combine_with [OF assms, of "line_no lm" b]
    show ?thesis by simp
  qed
  from m s ms sp line_nos_combine_with [of a b] show ?thesis
    by blast
qed

text \<open>The theorem at \<^const>\<open>result_a\<close> and \<^const>\<open>result_b\<close>.\<close>

theorem combine_with_fields_witness:
  "unique_lines result_a \<and>
   matches (combine_with result_a result_b) = matches result_a + matches result_b \<and>
   sorted_wrt (\<lambda>(s1, e1) (s2, e2). s1 < s2 \<or> (s1 = s2 \<and> e1 \<le> e2))
     (title_spans (combine_with result_a result_b)) \<and>
   mset (title_spans (combine_with result_a result_b)) =
     mset (title_spans result_a) + mset (title_spans result_b) \<and>
   sorted_wrt (<) (map line_no (line_matches (combine_with result_a result_b))) \<and>
   line_no ` set (line_matches (combine_with result_a result_b)) =
     line_no ` set (line_matches result_a) \<union> line_no ` set (line_matches result_b) \<and>
   list_all
     (\<lambda>lm. spans lm = spans_for (line_no lm) (line_matches result_a) @
                        spans_for (line_no lm) (line_matches result_b))
     (line_matches (combine_with result_a result_b))"
proof -
  have h: "unique_lines result_a"
    by (simp add: unique_lines_def result_a_def)
  from h combine_with_fields [OF h, of result_b] show ?thesis
    unfolding list_all_iff by (rule conjI)
qed

text \<open>The value of that combination: the duplicate title span is kept, and the spans of
  line 2 are concatenated without sorting.\<close>

lemma combine_with_example:
  "combine_with result_a result_b =
     \<lparr>title = ''Sonnet 1: Test'', title_spans = [(0, 6), (7, 9), (7, 9)],
      line_matches =
        [\<lparr>line_no = 1, line_text = ''From fairest creatures'', spans = [(5, 12)]\<rparr>,
         \<lparr>line_no = 2, line_text = ''we desire increase'', spans = [(3, 9), (10, 18), (0, 2)]\<rparr>],
      matches = 7\<rparr>"
  by (simp add: combine_with_def lines_by_no_def lines_by_no_init_def merge_line_def
      dict_values_def result_a_def result_b_def)

text \<open>The data-model invariant on the first argument is what the dictionary of line
  numbers relies on: of two line matches of \<open>self\<close> with one line number, only the
  second is kept, while \<open>matches\<close> still counts both.\<close>

lemma combine_with_duplicate_line:
  "combine_with
     \<lparr>title = ''T'', title_spans = [],
      line_matches = [\<lparr>line_no = 1, line_text = ''abcd'', spans = [(0, 1)]\<rparr>,
                      \<lparr>line_no = 1, line_text = ''abcd'', spans = [(2, 3)]\<rparr>],
      matches = 2\<rparr>
     \<lparr>title = ''T'', title_spans = [], line_matches = [], matches = 0\<rparr> =
   \<lparr>title = ''T'', title_spans = [],
    line_matches = [\<lparr>line_no = 1, line_text = ''abcd'', spans = [(2, 3)]\<rparr>],
    matches = 2\<rparr>"
  by (simp add: combine_with_def lines_by_no_def lines_by_no_init_def dict_values_def)

text \<open>
  Claim C6: for results with at most one line match per line number, combining is
  associative and commutative in its effects: both groupings of three results, and both
  orders of two, give the same \<open>matches\<close>, the same multiset of title spans and the
  same multiset of (line number, span) pairs.
\<close>

theorem combine_with_assoc_comm:
  assumes "unique_lines a" and "unique_lines b"
  shows "matches (combine_with (combine_with a b) c) = matches (combine_with a (combine_with b c)) \<and>
    mset (title_spans (combine_with (combine_with a b) c)) =
      mset (title_spans (combine_with a (combine_with b c))) \<and>
    mset (line_span_pairs (line_matches (combine_with (combine_with a b) c))) =
      mset (line_span_pairs (line_matches (combine_with a (combine_with b c)))) \<and>
    matches (combine_with a b) = matches (combine_with b a) \<and>
    mset (title_spans (combine_with a b)) = mset (title_spans (combine_with b a)) \<and>
    mset (line_span_pairs (line_matches (combine_with a b))) =
      mset (line_span_pairs (line_matches (combine_with b a)))"
proof -
  have m: "matches (combine_with x y) = matches x + matches y" for x y
    by (simp add: combine_with_def)
  have t: "mset (title_spans (combine_with x y)) = mset (title_spans x) + mset (title_spans y)" for x y
    by (simp add: combine_with_def)
  note u = unique_lines_combine_with [of a b]
  note p = mset_pairs_combine_with
  show ?thesis
    by (simp add: m t p [OF u] p [OF assms(1)] p [OF assms(2)])
qed

text \<open>The theorem at the three example results.\<close>

theorem combine_with_assoc_comm_witness:
  "unique_lines result_a \<and> unique_lines result_b \<and>
   matches (combine_with (combine_with result_a result_b) result_c) = 8 \<and>
   matches (combine_with result_a (combine_with result_b result_c)) = 8 \<and>
   mset (title_spans (combine_with (combine_with result_a result_b) result_c)) =
     mset (title_spans (combine_with result_a (combine_with result_b result_c))) \<and>
   mset (line_span_pairs (line_matches (combine_with (combine_with result_a result_b) result_c))) =
     mset (line_span_pairs (line_matches (combine_with result_a (combine_with result_b result_c)))) \<and>
   matches (combine_with result_a result_b) = matches (combine_with result_b result_a) \<and>
   mset (title_spans (combine_with result_a result_b)) =
     mset (title_spans (combine_with result_b result_a)) \<and>
   mset (line_span_pairs (line_matches (combine_with result_a result_b))) =
     mset (line_span_pairs (line_matches (combine_with result_b result_a)))"
proof -
  have a: "unique_lines result_a"
    by (simp add: unique_lines_def result_a_def)
  have b: "unique_lines result_b"
    by (simp add: unique_lines_def result_b_def)
  have "matches (combine_with (combine_with result_a result_b) result_c) = 8"
    by (simp add: combine_with_def result_a_def result_b_def result_c_def)
  with a b combine_with_assoc_comm [OF a b, of result_c] show ?thesis
    by simp
qed

section \<open>Properties of search_for\<close>

lemma dict_set_same: "map_of d k = Some v \<Longrightarrow> dict_set d k v = d"
  by (induction d k v rule: dict_set.induct) (auto split: if_splits)

lemma dict_set_twice: "dict_set (dict_set d k v) k v' = dict_set d k v'"
  by (induction d k v rule: dict_set.induct) auto

lemma sort_sort_append: "sort (sort xs @ ys) = sort (xs @ ys)"
  by (rule properties_for_sort [symmetric]) simp_all

lemma accounts_for_spans_for:
  assumes "accounts_for r ps"
  shows "spans_for ln (line_matches r) = line_posting_spans ln ps"
proof (cases "ln \<in> line_no ` set (line_matches r)")
  case True
  then obtain lm where lm: "lm \<in> set (line_matches r)" "line_no lm = ln" by auto
  have "distinct (map line_no (line_matches r))"
    using assms by (simp add: accounts_for_def strict_sorted_iff)
  from spans_for_unique [OF this lm(1)] lm assms show ?thesis
    by (simp add: accounts_for_def)
next
  case False
  then have "spans_for ln (line_matches r) = []" by (rule spans_for_absent)
  moreover from False assms have "\<forall>p \<in> set ps. posting_line_no p \<noteq> Some ln"
    by (auto simp: accounts_for_def)
  then have "line_posting_spans ln ps = []"
    by (simp add: line_posting_spans_def filter_empty_conv)
  ultimately show ?thesis by simp
qed

lemma accounts_for_unique: "accounts_for r ps \<Longrightarrow> unique_lines r"
  by (simp add: accounts_for_def unique_lines_def strict_sorted_iff)

lemma posting_result_accounts:
  assumes "posting_result idx d p = Inr m"
  shows "accounts_for m [p]"
proof (cases "posting_line_no p")
  case None
  with assms have "title_spans m = [posting_span p]" "line_matches m = []" "matches m = 1"
    by (auto simp: posting_result_def posting_span_def split: option.splits)
  with None show ?thesis
    by (simp add: accounts_for_def title_posting_spans_def)
next
  case (Some ln)
  with assms obtain lt where "title_spans m = []" "matches m = 1"
    "line_matches m = [\<lparr>line_no = ln, line_text = lt, spans = [posting_span p]\<rparr>]"
    by (auto simp: posting_result_def posting_span_def split: option.splits)
  with Some show ?thesis
    by (simp add: accounts_for_def title_posting_spans_def line_posting_spans_def)
qed

lemma list_index_in_range:
  "1 \<le> n \<Longrightarrow> n \<le> int (length xs) \<Longrightarrow> list_index xs (n - 1) = Some (xs ! nat (n - 1))"
  by (simp add: list_index_def Let_def)

lemma posting_result_ok:
  "map_of (sonnets idx) d = Some s \<Longrightarrow> line_ok s (posting_line_no p) \<Longrightarrow>
   \<exists>m. posting_result idx d p = Inr m"
  by (auto simp: posting_result_def line_ok_def list_index_in_range split: option.splits)

lemma accounts_for_combine_with:
  assumes r: "accounts_for r ps" and m: "accounts_for m [p]"
  shows "accounts_for (combine_with r m) (ps @ [p])"
proof -
  let ?c = "combine_with r m"
  note u = accounts_for_unique [OF r]
  have "matches ?c = int (length (ps @ [p]))"
    using r m by (simp add: combine_with_def accounts_for_def)
  moreover have "title_spans ?c = sort (title_posting_spans (ps @ [p]))"
    using r m by (simp add: combine_with_def accounts_for_def title_posting_spans_def sort_sort_append)
  moreover have "sorted_wrt (<) (map line_no (line_matches ?c))"
    using line_nos_combine_with [of r m] by simp
  moreover have "line_no ` set (line_matches ?c) =
      {ln. \<exists>q \<in> set (ps @ [p]). posting_line_no q = Some ln}"
    using line_nos_combine_with [of r m] r m by (auto simp: accounts_for_def)
  moreover have "spans lm = line_posting_spans (line_no lm) (ps @ [p])"
    if "lm \<in> set (line_matches ?c)" for lm
  proof -
    have "distinct (map line_no (line_matches ?c))"
      using unique_lines_combine_with [of r m] by (simp add: unique_lines_def)
    from spans_for_unique [OF this that] spans_for_combine_with [OF u, of "line_no lm" m]
    show ?thesis
      by (simp add: accounts_for_spans_for [OF r] accounts_for_spans_for [OF m]
          line_posting_spans_def)
  qed
  ultimately show ?thesis
    unfolding accounts_for_def by blast
qed

lemma search_postings_present:
  assumes "map_of res d = Some r" and "accounts_for r pre"
    and "\<forall>p \<in> set ps. \<exists>s. map_of (sonnets idx) d = Some s \<and> line_ok s (posting_line_no p)"
  shows "\<exists>r'. search_postings idx d ps res = Inr (dict_set res d r') \<and> accounts_for r' (pre @ ps)"
  using assms
proof (induction ps arbitrary: res r pre)
  case Nil
  then show ?case by (auto simp: dict_set_same intro!: exI [of _ r])
next
  case (Cons p ps)
  from Cons.prems(3) obtain m where m: "posting_result idx d p = Inr m"
    using posting_result_ok [of idx d _ p] by auto
  let ?res = "dict_set res d (combine_with r m)"
  have "map_of ?res d = Some (combine_with r m)"
    by (simp add: map_of_dict_set)
  moreover have "accounts_for (combine_with r m) (pre @ [p])"
    using Cons.prems(2) posting_result_accounts [OF m] by (rule accounts_for_combine_with)
  moreover have "\<forall>p \<in> set ps. \<exists>s. map_of (sonnets idx) d = Some s \<and> line_ok s (posting_line_no p)"
    using Cons.prems(3) by simp
  ultimately obtain r' where
    "search_postings idx d ps ?res = Inr (dict_set ?res d r')" "accounts_for r' ((pre @ [p]) @ ps)"
    using Cons.IH by blast
  with m Cons.prems(1) show ?case
    by (auto simp: dict_set_twice)
qed

lemma search_postings_absent:
  assumes "map_of res d = None" and "ps \<noteq> []"
    and "\<forall>p \<in> set ps. \<exists>s. map_of (sonnets idx) d = Some s \<and> line_ok s (posting_line_no p)"
  shows "\<exists>r'. search_postings idx d ps res = Inr (res @ [(d, r')]) \<and> accounts_for r' ps"
proof -
  from assms(2) obtain p ps' where ps: "ps = p # ps'" by (cases ps) auto
  from assms(3) ps obtain m where m: "posting_result idx d p = Inr m"
    using posting_result_ok [of idx d _ p] by auto
  let ?res = "dict_set res d m"
  have "map_of ?res d = Some m"
    by (simp add: map_of_dict_set)
  moreover note posting_result_accounts [OF m]
  moreover have "\<forall>p \<in> set ps'. \<exists>s. map_of (sonnets idx) d = Some s \<and> line_ok s (posting_line_no p)"
    using assms(3) ps by simp
  ultimately obtain r' where
    "search_postings idx d ps' ?res = Inr (dict_set ?res d r')" "accounts_for r' ([p] @ ps')"
    using search_postings_present by blast
  moreover have "dict_set ?res d r' = dict_set res d r'"
    by (rule dict_set_twice)
  moreover have "dict_set res d r' = res @ [(d, r')]"
    using assms(1) by (rule dict_set_None)
  ultimately show ?thesis
    using m ps assms(1) by (auto simp del: dict_set.simps)
qed

lemma search_docs_ok:
  assumes "distinct (map fst pl)" and "fst ` set res \<inter> fst ` set pl = {}"
    and "\<forall>(d, ps) \<in> set pl. ps \<noteq> [] \<and>
           (\<forall>p \<in> set ps. \<exists>s. map_of (sonnets idx) d = Some s \<and> line_ok s (posting_line_no p))"
  shows "\<exists>rs. search_docs idx pl res = Inr (res @ rs) \<and>
           list_all2 (\<lambda>(d, ps) (d', r). d' = d \<and> ps \<noteq> [] \<and> accounts_for r ps) pl rs"
  using assms
proof (induction pl arbitrary: res)
  case Nil
  then show ?case by simp
next
  case (Cons x pl)
  obtain d ps where x: "x = (d, ps)" by (cases x)
  from Cons.prems(2) x have "map_of res d = None"
    by (auto simp: map_of_eq_None_iff)
  moreover from Cons.prems(3) x have "ps \<noteq> []"
    and "\<forall>p \<in> set ps. \<exists>s. map_of (sonnets idx) d = Some s \<and> line_ok s (posting_line_no p)"
    by auto
  ultimately obtain r where r: "search_postings idx d ps res = Inr (res @ [(d, r)])"
    "accounts_for r ps" "ps \<noteq> []"
    using search_postings_absent by blast
  have "distinct (map fst pl)" using Cons.prems(1) by simp
  moreover have "fst ` set (res @ [(d, r)]) \<inter> fst ` set pl = {}"
    using Cons.prems(1,2) x by auto
  moreover have "\<forall>(d, ps) \<in> set pl. ps \<noteq> [] \<and>
      (\<forall>p \<in> set ps. \<exists>s. map_of (sonnets idx) d = Some s \<and> line_ok s (posting_line_no p))"
    using Cons.prems(3) by simp
  ultimately obtain rs where rs: "search_docs idx pl (res @ [(d, r)]) = Inr ((res @ [(d, r)]) @ rs)"
    "list_all2 (\<lambda>(d, ps) (d', r). d' = d \<and> ps \<noteq> [] \<and> accounts_for r ps) pl rs"
    using Cons.IH by blast
  from r rs x show ?case
    by (intro exI [of _ "(d, r) # rs"]) simp
qed

lemma search_for_index_ok:
  assumes "index_ok idx"
  shows "case map_of (dictionary idx) (stem t) of
           None \<Rightarrow> search_for idx t = Inr []
         | Some pl \<Rightarrow> \<exists>res. search_for idx t = Inr res \<and>
             list_all2 (\<lambda>(d, ps) (d', r). d' = d \<and> ps \<noteq> [] \<and> accounts_for r ps) pl res"
proof (cases "map_of (dictionary idx) (stem t)")
  case None
  then show ?thesis by (simp add: search_for_def)
next
  case (Some pl)
  then have "(stem t, pl) \<in> set (dictionary idx)" by (rule map_of_SomeD)
  with assms have d: "distinct (map fst pl)"
    and ok: "\<forall>(d, ps) \<in> set pl. ps \<noteq> [] \<and>
           (\<forall>p \<in> set ps. \<exists>s. map_of (sonnets idx) d = Some s \<and> line_ok s (posting_line_no p))"
    unfolding index_ok_def dictionary_ok_def by blast+
  from search_docs_ok [OF d _ ok, of "[]"] obtain rs where
    rs: "search_docs idx pl [] = Inr rs"
      "list_all2 (\<lambda>(d, ps) (d', r). d' = d \<and> ps \<noteq> [] \<and> accounts_for r ps) pl rs"
    by auto
  with Some show ?thesis
    by (simp add: search_for_def)
qed

section \<open>The index built from a list of sonnets\<close>

lemma dict_set_all:
  "\<forall>x \<in> set d. P x \<Longrightarrow> P (k, v) \<Longrightarrow> \<forall>x \<in> set (dict_set d k v). P x"
  using set_dict_set [of d k v] by blast

lemma dictionary_okD:
  assumes "dictionary_ok valid dict" and "(token, pl) \<in> set dict"
  shows "distinct (map fst pl)"
    and "\<forall>(d, qs) \<in> set pl. qs \<noteq> [] \<and> (\<forall>q \<in> set qs. valid d (posting_line_no q))"
  using assms unfolding dictionary_ok_def by blast+

lemma add_token_ok:
  assumes ok: "dictionary_ok valid dict" and v: "valid doc_id ln"
  shows "dictionary_ok valid (add_token dict doc_id token ln pos len)"
proof -
  define pl where "pl = (case map_of dict token of None \<Rightarrow> [] | Some pl \<Rightarrow> pl)"
  define ps where "ps = (case map_of pl doc_id of None \<Rightarrow> [] | Some ps \<Rightarrow> ps)"
  define p where "p = \<lparr>posting_line_no = ln, position = pos, token_length = len\<rparr>"
  define pl' where "pl' = dict_set pl doc_id (ps @ [p])"
  have eq: "add_token dict doc_id token ln pos len = dict_set dict token pl'"
    by (simp add: add_token_def pl_def ps_def p_def pl'_def Let_def)
  have pl: "distinct (map fst pl) \<and>
      (\<forall>(d, qs) \<in> set pl. qs \<noteq> [] \<and> (\<forall>q \<in> set qs. valid d (posting_line_no q)))"
  proof (cases "map_of dict token")
    case None
    then show ?thesis by (simp add: pl_def)
  next
    case (Some x)
    then have "(token, x) \<in> set dict" by (rule map_of_SomeD)
    from dictionary_okD [OF ok this] Some show ?thesis
      unfolding pl_def by simp
  qed
  have ps: "\<forall>q \<in> set ps. valid doc_id (posting_line_no q)"
  proof (cases "map_of pl doc_id")
    case None
    then show ?thesis by (simp add: ps_def)
  next
    case (Some x)
    then have "(doc_id, x) \<in> set pl" by (rule map_of_SomeD)
    with pl Some show ?thesis
      unfolding ps_def by auto
  qed
  have d': "distinct (map fst pl')"
    using pl unfolding pl'_def by (simp add: distinct_dict_set)
  have "ps @ [p] \<noteq> [] \<and> (\<forall>q \<in> set (ps @ [p]). valid doc_id (posting_line_no q))"
    using ps v by (simp add: p_def)
  with pl have e': "\<forall>x \<in> set pl'.
      case x of (d, qs) \<Rightarrow> qs \<noteq> [] \<and> (\<forall>q \<in> set qs. valid d (posting_line_no q))"
    unfolding pl'_def by (intro dict_set_all) simp_all
  have "distinct (map fst (dict_set dict token pl'))"
    using ok by (simp add: dictionary_ok_def distinct_dict_set)
  moreover have "\<forall>x \<in> set (dict_set dict token pl').
      case x of (token, pl) \<Rightarrow> distinct (map fst pl) \<and>
        (\<forall>(d, qs) \<in> set pl. qs \<noteq> [] \<and> (\<forall>q \<in> set qs. valid d (posting_line_no q)))"
    using ok d' e' unfolding dictionary_ok_def by (intro dict_set_all) simp_all
  ultimately show ?thesis
    unfolding eq dictionary_ok_def by simp
qed

lemma index_text_ok:
  assumes "dictionary_ok valid dict" and "valid doc_id ln"
  shows "dictionary_ok valid (index_text doc_id ln text dict)"
proof -
  have "dictionary_ok valid
      (fold (\<lambda>(token, pos) d. add_token d doc_id (stem token) ln pos (int (length token))) ts dict)"
    for ts
    using assms(1)
  proof (induction ts arbitrary: dict)
    case Nil
    then show ?case by simp
  next
    case (Cons t ts)
    obtain token pos where t: "t = (token, pos)" by (cases t)
    have "dictionary_ok valid (add_token dict doc_id (stem token) ln pos (int (length token)))"
      using Cons.prems assms(2) by (rule add_token_ok)
    from Cons.IH [OF this] t show ?case by simp
  qed
  then show ?thesis
    by (simp add: index_text_def)
qed

lemma enumerate_from_range:
  "(n, x) \<in> set (enumerate_from k xs) \<Longrightarrow> k \<le> n \<and> n < k + int (length xs)"
  by (induction xs arbitrary: k) (auto split: if_splits; fastforce)+

lemma index_sonnet_ok:
  assumes "dictionary_ok valid dict" and "valid (sonnet_id s) None"
    and "\<forall>n. 1 \<le> n \<and> n \<le> int (length (lines s)) \<longrightarrow> valid (sonnet_id s) (Some n)"
  shows "dictionary_ok valid (index_sonnet s dict)"
proof -
  have "dictionary_ok valid
      (fold (\<lambda>(ln, line) d. index_text (sonnet_id s) (Some ln) line d) ls d)"
    if "dictionary_ok valid d" and "\<forall>(n, x) \<in> set ls. valid (sonnet_id s) (Some n)" for ls d
    using that
    by (induction ls arbitrary: d) (auto simp: index_text_ok)
  moreover have "dictionary_ok valid (index_text (sonnet_id s) None (sonnet_title s) dict)"
    using assms(1,2) by (rule index_text_ok)
  moreover have "\<forall>(n, x) \<in> set (enumerate_from 1 (lines s)). valid (sonnet_id s) (Some n)"
    using assms(3) enumerate_from_range [of _ _ 1 "lines s"] by fastforce
  ultimately show ?thesis
    by (simp add: index_sonnet_def)
qed

lemma fold_index_sonnet_ok:
  assumes "dictionary_ok valid dict"
    and "\<forall>s \<in> set sl. valid (sonnet_id s) None \<and>
           (\<forall>n. 1 \<le> n \<and> n \<le> int (length (lines s)) \<longrightarrow> valid (sonnet_id s) (Some n))"
  shows "dictionary_ok valid (fold index_sonnet sl dict)"
  using assms
  by (induction sl arbitrary: dict) (simp_all add: index_sonnet_ok)

lemma map_of_keyed:
  "distinct (map f xs) \<Longrightarrow> x \<in> set xs \<Longrightarrow> map_of (map (\<lambda>x. (f x, x)) xs) (f x) = Some x"
  by (induction xs) (auto simp: image_iff)

lemma sonnets_Index_init:
  assumes "distinct (map sonnet_id sl)" and "s \<in> set sl"
  shows "map_of (sonnets (Index_init sl)) (sonnet_id s) = Some s"
proof -
  have "sonnets (Index_init sl) = map (\<lambda>s. (sonnet_id s, s)) sl"
    using fold_dict_set_distinct [OF assms(1), of "[]"] by (simp add: Index_init_def)
  with map_of_keyed [OF assms] show ?thesis by simp
qed

lemma index_ok_Index_init:
  assumes "distinct (map sonnet_id sl)"
  shows "index_ok (Index_init sl)"
proof -
  let ?valid = "\<lambda>doc_id ln. \<exists>sonnet.
      map_of (sonnets (Index_init sl)) doc_id = Some sonnet \<and> line_ok sonnet ln"
  have "dictionary_ok ?valid []"
    by (simp add: dictionary_ok_def)
  moreover have "\<forall>s \<in> set sl. ?valid (sonnet_id s) None \<and>
      (\<forall>n. 1 \<le> n \<and> n \<le> int (length (lines s)) \<longrightarrow> ?valid (sonnet_id s) (Some n))"
    using sonnets_Index_init [OF assms] by (simp add: line_ok_def)
  ultimately have "dictionary_ok ?valid (fold index_sonnet sl [])"
    by (rule fold_index_sonnet_ok)
  then show ?thesis
    by (simp add: index_ok_def Index_init_def)
qed

lemma list_all2_keys:
  "list_all2 (\<lambda>(d, ps) (d', r). d' = d \<and> P ps r) pl res \<Longrightarrow> map fst res = map fst pl"
  by (induction pl res rule: list_all2_induct) auto

lemma list_all2_lookup:
  "list_all2 (\<lambda>(d, ps) (d', r). d' = d \<and> P ps r) pl res \<Longrightarrow> distinct (map fst pl) \<Longrightarrow>
   (d, r) \<in> set res \<Longrightarrow> \<exists>ps. map_of pl d = Some ps \<and> P ps r"
proof (induction pl res rule: list_all2_induct)
  case Nil
  then show ?case by simp
next
  case (Cons x xs y ys)
  obtain d0 ps0 where x: "x = (d0, ps0)" by (cases x)
  with Cons.hyps(1) obtain r0 where y: "y = (d0, r0)" "P ps0 r0" by (cases y) auto
  show ?case
  proof (cases "(d, r) = y")
    case True
    with x y show ?thesis by auto
  next
    case False
    with Cons.prems have in_ys: "(d, r) \<in> set ys" by simp
    from list_all2_keys [OF Cons.hyps(2)] in_ys have "d \<in> fst ` set xs"
      by (metis image_eqI fst_conv list.set_map)
    with Cons.prems(1) x have "d \<noteq> d0" by auto
    with Cons.IH in_ys Cons.prems(1) x show ?thesis by auto
  qed
qed

text \<open>
  Claim C4: in the index built from sonnets with unique ids, for every token \<open>t\<close>:
  if \<open>stem t\<close> is not a key of the dictionary, \<open>search_for\<close> returns the empty
  mapping; otherwise it returns a mapping whose keys are the document ids of the posting
  list of \<open>stem t\<close>, each of which has at least one posting, and for each such
  document \<open>matches\<close> is the number of its postings, the title spans are the spans
  \<open>(position, position + token_length)\<close> of its title postings (sorted), the line
  matches have strictly ascending line numbers, which are the lines of its postings, and
  the spans of each line match are the spans of the postings of that line in posting order.
\<close>

theorem search_for_postings:
  assumes "distinct (map sonnet_id sonnet_list)"
  shows "case map_of (dictionary (Index_init sonnet_list)) (stem t) of
      None \<Rightarrow> search_for (Index_init sonnet_list) t = Inr []
    | Some pl \<Rightarrow>
        \<exists>res. search_for (Index_init sonnet_list) t = Inr res \<and>
          map fst res = map fst pl \<and>
          (\<forall>(d, r) \<in> set res. \<exists>ps.
             map_of pl d = Some ps \<and> ps \<noteq> [] \<and>
             matches r = int (length ps) \<and>
             title_spans r = sort (title_posting_spans ps) \<and>
             sorted_wrt (<) (map line_no (line_matches r)) \<and>
             line_no ` set (line_matches r) = {ln. \<exists>p \<in> set ps. posting_line_no p = Some ln} \<and>
             (\<forall>lm \<in> set (line_matches r). spans lm = line_posting_spans (line_no lm) ps))"
proof (cases "map_of (dictionary (Index_init sonnet_list)) (stem t)")
  case None
  with search_for_index_ok [OF index_ok_Index_init [OF assms], of t] show ?thesis
    by simp
next
  case (Some pl)
  let ?P = "\<lambda>ps r. ps \<noteq> [] \<and> accounts_for r ps"
  from Some search_for_index_ok [OF index_ok_Index_init [OF assms], of t]
  obtain res where res: "search_for (Index_init sonnet_list) t = Inr res"
    "list_all2 (\<lambda>(d, ps) (d', r). d' = d \<and> ?P ps r) pl res"
    by auto
  from Some have "(stem t, pl) \<in> set (dictionary (Index_init sonnet_list))"
    by (rule map_of_SomeD)
  with index_ok_Index_init [OF assms] have dist: "distinct (map fst pl)"
    unfolding index_ok_def by (rule dictionary_okD)
  have "\<exists>ps. map_of pl d = Some ps \<and> ?P ps r" if "(d, r) \<in> set res" for d r
    using res(2) dist that by (rule list_all2_lookup)
  then have "\<forall>(d, r) \<in> set res. \<exists>ps. map_of pl d = Some ps \<and> ps \<noteq> [] \<and>
      matches r = int (length ps) \<and>
      title_spans r = sort (title_posting_spans ps) \<and>
      sorted_wrt (<) (map line_no (line_matches r)) \<and>
      line_no ` set (line_matches r) = {ln. \<exists>p \<in> set ps. posting_line_no p = Some ln} \<and>
      (\<forall>lm \<in> set (line_matches r). spans lm = line_posting_spans (line_no lm) ps)"
    unfolding accounts_for_def by blast
  with res(1) list_all2_keys [OF res(2)] show ?thesis
    unfolding Some by simp
qed

section \<open>The example corpus\<close>

lemma corpus_tokens:
  "tokenize ''Sonnet 1: Test'' = [(''Sonnet'', 0), (''1:'', 7), (''Test'', 10)]"
  "tokenize ''From fairest creatures we desire increase'' =
     [(''From'', 0), (''fairest'', 5), (''creatures'', 13), (''we'', 23), (''desire'', 26),
      (''increase'', 33)]"
  "tokenize ''Sonnet 2: Other'' = [(''Sonnet'', 0), (''2:'', 7), (''Other'', 10)]"
  "tokenize ''Thy beauty's image dost thou rose increase'' =
     [(''Thy'', 0), (''beauty's'', 4), (''image'', 13), (''dost'', 19), (''thou'', 24),
      (''rose'', 29), (''increase'', 34)]"
  by (simp_all add: tokenize_def is_space_def)

lemma corpus_stems:
  "stem ''Sonnet'' = ''sonnet''" "stem ''1:'' = ''1:''" "stem ''Test'' = ''test''"
  "stem ''From'' = ''from''" "stem ''fairest'' = ''fairest''" "stem ''creatures'' = ''creature''"
  "stem ''we'' = ''we''" "stem ''desire'' = ''desire''" "stem ''increase'' = ''increase''"
  "stem ''2:'' = ''2:''" "stem ''Other'' = ''other''" "stem ''Thy'' = ''thy''"
  "stem ''beauty's'' = ''beauty''" "stem ''image'' = ''image''" "stem ''dost'' = ''dost''"
  "stem ''thou'' = ''thou''" "stem ''rose'' = ''rose''" "stem ''zzz'' = ''zzz''"
  by code_simp+

lemma corpus_dictionary:
  "dictionary (Index_init corpus) =
   [(''sonnet'',
      [(1, [\<lparr>posting_line_no = None, position = 0, token_length = 6\<rparr>]),
       (2, [\<lparr>posting_line_no = None, position = 0, token_length = 6\<rparr>])]),
     (''1:'',
      [(1, [\<lparr>posting_line_no = None, position = 7, token_length = 2\<rparr>])]),
     (''test'',
      [(1, [\<lparr>posting_line_no = None, position = 10, token_length = 4\<rparr>])]),
     (''from'',
      [(1, [\<lparr>posting_line_no = Some 1, position = 0, token_length = 4\<rparr>])]),
     (''fairest'',
      [(1, [\<lparr>posting_line_no = Some 1, position = 5, token_length = 7\<rparr>])]),
     (''creature'',
      [(1, [\<lparr>posting_line_no = Some 1, position = 13, token_length = 9\<rparr>])]),
     (''we'',
      [(1, [\<lparr>posting_line_no = Some 1, position = 23, token_length = 2\<rparr>])]),
     (''desire'',
      [(1, [\<lparr>posting_line_no = Some 1, position = 26, token_length = 6\<rparr>])]),
     (''increase'',
      [(1, [\<lparr>posting_line_no = Some 1, position = 33, token_length = 8\<rparr>]),
       (2, [\<lparr>posting_line_no = Some 1, position = 34, token_length = 8\<rparr>])]),
     (''2:'',
      [(2, [\<lparr>posting_line_no = None, position = 7, token_length = 2\<rparr>])]),
     (''other'',
      [(2, [\<lparr>posting_line_no = None, position = 10, token_length = 5\<rparr>])]),
     (''thy'',
      [(2, [\<lparr>posting_line_no = Some 1, position = 0, token_length = 3\<rparr>])]),
     (''beauty'',
      [(2, [\<lparr>posting_line_no = Some 1, position = 4, token_length = 8\<rparr>])]),
     (''image'',
      [(2, [\<lparr>posting_line_no = Some 1, position = 13, token_length = 5\<rparr>])]),
     (''dost'',
      [(2, [\<lparr>posting_line_no = Some 1, position = 19, token_length = 4\<rparr>])]),
     (''thou'',
      [(2, [\<lparr>posting_line_no = Some 1, position = 24, token_length = 4\<rparr>])]),
     (''rose'',
      [(2, [\<lparr>posting_line_no = Some 1, position = 29, token_length = 4\<rparr>])])]"
  by (simp add: Index_init_def corpus_def sonnet_1_def sonnet_2_def index_sonnet_def
      index_text_def corpus_tokens corpus_stems add_token_def)

lemma corpus_sonnets: "sonnets (Index_init corpus) = [(1, sonnet_1), (2, sonnet_2)]"
  by (simp add: Index_init_def corpus_def sonnet_1_def sonnet_2_def)

lemma corpus_search_for:
  "search_for (Index_init corpus) ''zzz'' = Inr []"
  "search_for (Index_init corpus) ''rose'' =
     Inr [(2, \<lparr>title = ''Sonnet 2: Other'', title_spans = [],
               line_matches =
                 [\<lparr>line_no = 1, line_text = ''Thy beauty's image dost thou rose increase'',
                   spans = [(29, 33)]\<rparr>],
               matches = 1\<rparr>)]"
  "search_for (Index_init corpus) ''increase'' =
     Inr [(1, \<lparr>title = ''Sonnet 1: Test'', title_spans = [],
               line_matches =
                 [\<lparr>line_no = 1, line_text = ''From fairest creatures we desire increase'',
                   spans = [(33, 41)]\<rparr>],
               matches = 1\<rparr>),
          (2, \<lparr>title = ''Sonnet 2: Other'', title_spans = [],
               line_matches =
                 [\<lparr>line_no = 1, line_text = ''Thy beauty's image dost thou rose increase'',
                   spans = [(34, 42)]\<rparr>],
               matches = 1\<rparr>)]"
  by (simp_all add: search_for_def corpus_stems corpus_dictionary corpus_sonnets
      posting_result_def list_index_def sonnet_1_def sonnet_2_def)

text \<open>The theorem at the example corpus and the token \<open>increase\<close>, whose posting list
  has one posting in each of the two documents.\<close>

theorem search_for_postings_witness:
  "distinct (map sonnet_id corpus) \<and>
   map_of (dictionary (Index_init corpus)) (stem ''increase'') =
     Some [(1, [\<lparr>posting_line_no = Some 1, position = 33, token_length = 8\<rparr>]),
           (2, [\<lparr>posting_line_no = Some 1, position = 34, token_length = 8\<rparr>])] \<and>
   (case map_of (dictionary (Index_init corpus)) (stem ''increase'') of
      None \<Rightarrow> search_for (Index_init corpus) ''increase'' = Inr []
    | Some pl \<Rightarrow>
        \<exists>res. search_for (Index_init corpus) ''increase'' = Inr res \<and>
          map fst res = map fst pl \<and>
          (\<forall>(d, r) \<in> set res. \<exists>ps.
             map_of pl d = Some ps \<and> ps \<noteq> [] \<and>
             matches r = int (length ps) \<and>
             title_spans r = sort (title_posting_spans ps) \<and>
             sorted_wrt (<) (map line_no (line_matches r)) \<and>
             line_no ` set (line_matches r) = {ln. \<exists>p \<in> set ps. posting_line_no p = Some ln} \<and>
             (\<forall>lm \<in> set (line_matches r). spans lm = line_posting_spans (line_no lm) ps)))"
proof -
  have h: "distinct (map sonnet_id corpus)"
    by (simp add: corpus_def sonnet_1_def sonnet_2_def)
  have "map_of (dictionary (Index_init corpus)) (stem ''increase'') =
     Some [(1, [\<lparr>posting_line_no = Some 1, position = 33, token_length = 8\<rparr>]),
           (2, [\<lparr>posting_line_no = Some 1, position = 34, token_length = 8\<rparr>])]"
    by (simp add: corpus_dictionary corpus_stems)
  with h search_for_postings [OF h, of "''increase''"] show ?thesis
    by blast
qed

section \<open>Properties of search\<close>

lemma corpus_split:
  "split ''zzz increase'' = [''zzz'', ''increase'']"
  "split ''rose increase'' = [''rose'', ''increase'']"
  by (simp_all add: split_def tokenize_def is_space_def)

lemma title_order: "''Sonnet 1: Test'' \<le> ''Sonnet 2: Other''"
  by code_simp

text \<open>
  Claim C1 says that the AND search for two words returns only documents that both
  words match, and nothing when the first word matches nothing. In the example corpus
  the word \<open>zzz\<close> matches no document, and the AND search for \<open>zzz increase\<close>
  returns both documents that contain \<open>increase\<close>: the running set is empty after the
  first word, so the loop takes the second word for the first.
\<close>

theorem and_search_unmatched_first_word:
  "search_for (Index_init corpus) ''zzz'' = Inr [] \<and>
   search (Searcher_init corpus) ''zzz increase'' ''AND'' =
     Inr [\<lparr>title = ''Sonnet 1: Test'', title_spans = [],
           line_matches =
             [\<lparr>line_no = 1, line_text = ''From fairest creatures we desire increase'',
               spans = [(33, 41)]\<rparr>],
           matches = 1\<rparr>,
          \<lparr>title = ''Sonnet 2: Other'', title_spans = [],
           line_matches =
             [\<lparr>line_no = 1, line_text = ''Thy beauty's image dost thou rose increase'',
               spans = [(34, 42)]\<rparr>],
           matches = 1\<rparr>]"
  by (simp add: search_def Searcher_init_def corpus_split corpus_search_for dict_values_def
      title_order)

text \<open>When the first word matches some document, the AND search for two words keeps
  exactly the documents that both words match.\<close>

lemma and_step_keys: "fst ` set (and_step c r) = fst ` set c \<inter> fst ` set r"
proof -
  have "fst ` set (fold (\<lambda>(doc_id, x) new_combined.
             case map_of r doc_id of
               Some r' \<Rightarrow> dict_set new_combined doc_id (combine_with x r')
             | None \<Rightarrow> new_combined) xs new) =
        fst ` set new \<union> (fst ` set xs \<inter> fst ` set r)"
    for xs new :: "(int, SearchResult) dict"
  proof (induction xs arbitrary: new)
    case Nil
    show ?case by simp
  next
    case (Cons y ys)
    obtain d x where y: "y = (d, x)" by (cases y)
    show ?case
    proof (cases "map_of r d")
      case None
      then have "d \<notin> fst ` set r" by (simp add: map_of_eq_None_iff)
      with None Cons.IH [of new] y show ?thesis by auto
    next
      case (Some r')
      then have "d \<in> fst ` set r" by (metis map_of_eq_None_iff option.distinct(1))
      with Some Cons.IH [of "dict_set new d (combine_with x r')"] y show ?thesis
        by (auto simp: keys_dict_set)
    qed
  qed
  from this [of c "[]"] show ?thesis
    by (simp add: and_step_def)
qed

lemma and_search_two_words:
  assumes "search_for idx w1 = Inr r1" and "r1 \<noteq> []" and "search_for idx w2 = Inr r2"
  shows "search_words idx ''AND'' [w1, w2] [] = Inr (and_step r1 r2) \<and>
         fst ` set (and_step r1 r2) = fst ` set r1 \<inter> fst ` set r2"
  using assms by (simp add: and_step_keys)

text \<open>
  Claim C2 says that a mode other than \<open>AND\<close> and \<open>OR\<close> is rejected with an error
  when the query has two words or more. The search for \<open>rose increase\<close> with the mode
  \<open>XOR\<close> returns a list: the result of \<open>rose\<close> alone.
\<close>

theorem unknown_mode_counterexample:
  "search (Searcher_init corpus) ''rose increase'' ''XOR'' =
     Inr [\<lparr>title = ''Sonnet 2: Other'', title_spans = [],
           line_matches =
             [\<lparr>line_no = 1, line_text = ''Thy beauty's image dost thou rose increase'',
               spans = [(29, 33)]\<rparr>],
           matches = 1\<rparr>]"
  by (simp add: search_def Searcher_init_def corpus_split corpus_search_for dict_values_def)

lemma search_for_total:
  assumes "index_ok idx"
  shows "\<exists>res. search_for idx t = Inr res"
  using search_for_index_ok [OF assms, of t]
  by (cases "map_of (dictionary idx) (stem t)") auto

lemma search_words_total:
  assumes "\<forall>w. \<exists>res. search_for idx w = Inr res"
  shows "\<exists>c'. search_words idx mode ws c = Inr c'"
proof (induction ws arbitrary: c)
  case Nil
  then show ?case by simp
next
  case (Cons w ws)
  from assms obtain res where "search_for idx w = Inr res" by blast
  with Cons.IH show ?case by simp
qed

lemma search_words_unknown_mode:
  assumes "mode \<noteq> ''AND''" and "mode \<noteq> ''OR''" and "\<forall>w. \<exists>res. search_for idx w = Inr res"
    and "c \<noteq> []"
  shows "search_words idx mode ws c = Inr c"
proof (induction ws)
  case Nil
  show ?case by simp
next
  case (Cons w ws)
  from assms(3) obtain res where res: "search_for idx w = Inr res" by blast
  with Cons.IH assms(1,2,4) show ?case by simp
qed

text \<open>
  Claim C2, as amended: for sonnets with unique ids and a mode other than \<open>AND\<close> and
  \<open>OR\<close>, \<open>search\<close> signals no error and returns a list; when the first word of the
  query matches some document, the list is the result of that word alone, sorted by
  title, and the words after it are ignored.
\<close>

theorem search_unknown_mode:
  assumes "distinct (map sonnet_id sonnet_list)" and "mode \<noteq> ''AND''" and "mode \<noteq> ''OR''"
  shows "(\<exists>rs. search (Searcher_init sonnet_list) query mode = Inr rs) \<and>
      (split query = w # ws \<and> search_for (Index_init sonnet_list) w = Inr r \<and> r \<noteq> [] \<longrightarrow>
         search (Searcher_init sonnet_list) query mode = Inr (sort_key title (dict_values r)))"
proof -
  have total: "\<forall>w. \<exists>res. search_for (Index_init sonnet_list) w = Inr res"
    using search_for_total [OF index_ok_Index_init [OF assms(1)]] by blast
  from search_words_total [OF total, of mode "split query" "[]"]
  have 1: "\<exists>rs. search (Searcher_init sonnet_list) query mode = Inr rs"
    by (auto simp: search_def Searcher_init_def)
  have 2: "search (Searcher_init sonnet_list) query mode = Inr (sort_key title (dict_values r))"
    if q: "split query = w # ws" and r: "search_for (Index_init sonnet_list) w = Inr r" "r \<noteq> []"
  proof -
    have "search_words (Index_init sonnet_list) mode (w # ws) [] =
        search_words (Index_init sonnet_list) mode ws r"
      using r(1) by (simp only: search_words.simps sum.case simp_thms if_True)
    also have "\<dots> = Inr r"
      using assms(2,3) total r(2) by (rule search_words_unknown_mode)
    finally show ?thesis
      by (simp add: search_def Searcher_init_def q)
  qed
  from 1 2 show ?thesis by blast
qed

text \<open>The theorem at the example corpus, the query \<open>rose increase\<close> and the mode \<open>XOR\<close>:
  the result is that of \<open>rose\<close>.\<close>

theorem search_unknown_mode_witness:
  "distinct (map sonnet_id corpus) \<and> ''XOR'' \<noteq> ''AND'' \<and> ''XOR'' \<noteq> ''OR'' \<and>
   split ''rose increase'' = [''rose'', ''increase''] \<and>
   search_for (Index_init corpus) ''rose'' =
     Inr [(2, \<lparr>title = ''Sonnet 2: Other'', title_spans = [],
               line_matches =
                 [\<lparr>line_no = 1, line_text = ''Thy beauty's image dost thou rose increase'',
                   spans = [(29, 33)]\<rparr>],
               matches = 1\<rparr>)] \<and>
   search (Searcher_init corpus) ''rose increase'' ''XOR'' =
     Inr (sort_key title (dict_values
       [(2 :: int, \<lparr>title = ''Sonnet 2: Other'', title_spans = [],
             line_matches =
               [\<lparr>line_no = 1, line_text = ''Thy beauty's image dost thou rose increase'',
                 spans = [(29, 33)]\<rparr>],
             matches = 1\<rparr>)]))"
proof -
  have h: "distinct (map sonnet_id corpus)"
    by (simp add: corpus_def sonnet_1_def sonnet_2_def)
  have a: "''XOR'' \<noteq> ''AND''" and b: "''XOR'' \<noteq> ''OR''"
    by simp_all
  note q = corpus_split(2) and r = corpus_search_for(2)
  let ?r = "[(2 :: int, \<lparr>title = ''Sonnet 2: Other'', title_spans = [],
             line_matches =
               [\<lparr>line_no = 1, line_text = ''Thy beauty's image dost thou rose increase'',
                 spans = [(29, 33)]\<rparr>],
             matches = 1\<rparr>)]"
  note t = search_unknown_mode [OF h a b, where query = "''rose increase''" and w = "''rose''"
      and ws = "[''increase'']" and r = ?r]
  have ne: "?r \<noteq> []" by simp
  have "search (Searcher_init corpus) ''rose increase'' ''XOR'' =
      Inr (sort_key title (dict_values ?r))"
    by (rule mp [OF conjunct2 [OF t]]) (intro conjI q r ne)
  then show ?thesis
    by (intro conjI h a b q r)
qed

section \<open>The match count\<close>

lemma well_formed_posting_result:
  assumes "posting_result idx d p = Inr m"
  shows "well_formed m"
proof (cases "posting_line_no p")
  case None
  with assms have "length (title_spans m) = 1" "line_matches m = []" "matches m = 1"
    by (auto simp: posting_result_def split: option.splits)
  then show ?thesis
    by (simp add: well_formed_def count_ok_def unique_lines_def)
next
  case (Some ln)
  with assms obtain lm where "title_spans m = []" "matches m = 1"
    "line_matches m = [lm]" "length (spans lm) = 1"
    by (auto simp: posting_result_def split: option.splits)
  then show ?thesis
    by (simp add: well_formed_def count_ok_def unique_lines_def)
qed

lemma well_formed_combine_with:
  "well_formed a \<Longrightarrow> well_formed b \<Longrightarrow> well_formed (combine_with a b)"
  by (simp add: well_formed_def count_ok_combine_with unique_lines_combine_with)

lemma dict_set_well_formed:
  "\<forall>x \<in> set d. well_formed (snd x) \<Longrightarrow> well_formed v \<Longrightarrow>
   \<forall>x \<in> set (dict_set d k v). well_formed (snd x)"
  using set_dict_set [of d k v] by auto

lemma search_postings_well_formed:
  "\<forall>x \<in> set res. well_formed (snd x) \<Longrightarrow> search_postings idx d ps res = Inr res' \<Longrightarrow>
   \<forall>x \<in> set res'. well_formed (snd x)"
proof (induction ps arbitrary: res)
  case Nil
  then show ?case by simp
next
  case (Cons p ps)
  from Cons.prems(2) obtain m where m: "posting_result idx d p = Inr m"
    by (auto split: sum.splits)
  let ?res = "case map_of res d of None \<Rightarrow> dict_set res d m
              | Some r \<Rightarrow> dict_set res d (combine_with r m)"
  have "\<forall>x \<in> set ?res. well_formed (snd x)"
  proof (cases "map_of res d")
    case None
    from Cons.prems(1) well_formed_posting_result [OF m]
    have "\<forall>x \<in> set (dict_set res d m). well_formed (snd x)"
      by (rule dict_set_well_formed)
    with None show ?thesis by simp
  next
    case (Some r)
    then have "(d, r) \<in> set res" by (rule map_of_SomeD)
    with Cons.prems(1) have "well_formed r" by auto
    then have "well_formed (combine_with r m)"
      using well_formed_posting_result [OF m] by (rule well_formed_combine_with)
    with Cons.prems(1) have "\<forall>x \<in> set (dict_set res d (combine_with r m)). well_formed (snd x)"
      by (rule dict_set_well_formed)
    with Some show ?thesis by simp
  qed
  moreover from Cons.prems(2) m have "search_postings idx d ps ?res = Inr res'"
    by simp
  ultimately show ?case
    by (rule Cons.IH)
qed

lemma search_docs_well_formed:
  "\<forall>x \<in> set res. well_formed (snd x) \<Longrightarrow> search_docs idx pl res = Inr res' \<Longrightarrow>
   \<forall>x \<in> set res'. well_formed (snd x)"
proof (induction pl arbitrary: res)
  case Nil
  then show ?case by simp
next
  case (Cons x pl)
  obtain d ps where x: "x = (d, ps)" by (cases x)
  with Cons.prems(2) obtain res1 where res1: "search_postings idx d ps res = Inr res1"
    "search_docs idx pl res1 = Inr res'"
    by (auto split: sum.splits)
  from search_postings_well_formed [OF Cons.prems(1) res1(1)] res1(2) show ?case
    by (rule Cons.IH)
qed

lemma search_for_well_formed:
  "search_for idx t = Inr res \<Longrightarrow> \<forall>x \<in> set res. well_formed (snd x)"
  using search_docs_well_formed [of "[]" idx _ res]
  by (auto simp: search_for_def split: option.splits)

lemma and_step_well_formed:
  assumes "\<forall>x \<in> set c. well_formed (snd x)" and "\<forall>x \<in> set res. well_formed (snd x)"
  shows "\<forall>x \<in> set (and_step c res). well_formed (snd x)"
proof -
  have "\<forall>x \<in> set (fold (\<lambda>(doc_id, r) new_combined.
             case map_of res doc_id of
               Some r' \<Rightarrow> dict_set new_combined doc_id (combine_with r r')
             | None \<Rightarrow> new_combined) xs new). well_formed (snd x)"
    if "\<forall>x \<in> set xs. well_formed (snd x)" and "\<forall>x \<in> set new. well_formed (snd x)"
    for xs new :: "(int, SearchResult) dict"
    using that
  proof (induction xs arbitrary: new)
    case Nil
    then show ?case by simp
  next
    case (Cons y ys)
    obtain d r where y: "y = (d, r)" by (cases y)
    with Cons.prems(1) have r: "well_formed r" by simp
    let ?new = "case map_of res d of
        Some r' \<Rightarrow> dict_set new d (combine_with r r') | None \<Rightarrow> new"
    have "\<forall>x \<in> set ?new. well_formed (snd x)"
    proof (cases "map_of res d")
      case None
      with Cons.prems(2) show ?thesis by simp
    next
      case (Some r')
      then have "(d, r') \<in> set res" by (rule map_of_SomeD)
      with assms(2) have "well_formed r'" by auto
      with r have "well_formed (combine_with r r')"
        by (rule well_formed_combine_with)
      with Cons.prems(2) have "\<forall>x \<in> set (dict_set new d (combine_with r r')). well_formed (snd x)"
        by (rule dict_set_well_formed)
      with Some show ?thesis by simp
    qed
    with Cons.IH [of ?new] Cons.prems(1) y show ?case by simp
  qed
  from this [OF assms(1), of "[]"] show ?thesis
    by (simp add: and_step_def)
qed

lemma or_step_well_formed:
  assumes "\<forall>x \<in> set c. well_formed (snd x)" and "\<forall>x \<in> set res. well_formed (snd x)"
  shows "\<forall>x \<in> set (or_step c res). well_formed (snd x)"
proof -
  have "\<forall>x \<in> set (fold (\<lambda>(doc_id, result) combined.
             case map_of combined doc_id of
               Some r \<Rightarrow> dict_set combined doc_id (combine_with r result)
             | None \<Rightarrow> dict_set combined doc_id result) xs acc). well_formed (snd x)"
    if "\<forall>x \<in> set xs. well_formed (snd x)" and "\<forall>x \<in> set acc. well_formed (snd x)"
    for xs acc :: "(int, SearchResult) dict"
    using that
  proof (induction xs arbitrary: acc)
    case Nil
    then show ?case by simp
  next
    case (Cons y ys)
    obtain d result where y: "y = (d, result)" by (cases y)
    with Cons.prems(1) have r: "well_formed result" by simp
    let ?acc = "case map_of acc d of
        Some r \<Rightarrow> dict_set acc d (combine_with r result) | None \<Rightarrow> dict_set acc d result"
    have "\<forall>x \<in> set ?acc. well_formed (snd x)"
    proof (cases "map_of acc d")
      case None
      from Cons.prems(2) r have "\<forall>x \<in> set (dict_set acc d result). well_formed (snd x)"
        by (rule dict_set_well_formed)
      with None show ?thesis by simp
    next
      case (Some r')
      then have "(d, r') \<in> set acc" by (rule map_of_SomeD)
      with Cons.prems(2) have "well_formed r'" by auto
      then have "well_formed (combine_with r' result)"
        using r by (rule well_formed_combine_with)
      with Cons.prems(2) have "\<forall>x \<in> set (dict_set acc d (combine_with r' result)). well_formed (snd x)"
        by (rule dict_set_well_formed)
      with Some show ?thesis by simp
    qed
    with Cons.IH [of ?acc] Cons.prems(1) y show ?case by simp
  qed
  from this [OF assms(2,1)] show ?thesis
    by (simp add: or_step_def)
qed

lemma search_words_Cons:
  "search_for idx w = Inr res \<Longrightarrow>
   search_words idx mode (w # ws) c =
     search_words idx mode ws
       (if c = [] then res
        else if mode = ''AND'' then and_step c res
        else if mode = ''OR'' then or_step c res
        else c)"
  by (simp only: search_words.simps sum.case)

lemma if_chain_cases:
  "P x \<Longrightarrow> P y \<Longrightarrow> P z \<Longrightarrow> P u \<Longrightarrow> P (if a then x else if b then y else if d then z else u)"
  by simp

lemma search_words_well_formed:
  "\<forall>x \<in> set c. well_formed (snd x) \<Longrightarrow> search_words idx mode ws c = Inr c' \<Longrightarrow>
   \<forall>x \<in> set c'. well_formed (snd x)"
proof (induction ws arbitrary: c)
  case Nil
  then show ?case by simp
next
  case (Cons w ws)
  from Cons.prems(2) obtain res where res: "search_for idx w = Inr res"
    by (cases "search_for idx w") (simp_all only: search_words.simps sum.case)
  note wf = search_for_well_formed [OF res]
  define c1 where "c1 = (if c = [] then res
            else if mode = ''AND'' then and_step c res
            else if mode = ''OR'' then or_step c res
            else c)"
  have "\<forall>x \<in> set c1. well_formed (snd x)"
    unfolding c1_def
    using wf and_step_well_formed [OF Cons.prems(1) wf]
      or_step_well_formed [OF Cons.prems(1) wf] Cons.prems(1)
    by (rule if_chain_cases [where P = "\<lambda>c. \<forall>x \<in> set c. well_formed (snd x)"])
  moreover from Cons.prems(2) have "search_words idx mode ws c1 = Inr c'"
    unfolding c1_def search_words_Cons [OF res] .
  ultimately show ?case
    by (rule Cons.IH)
qed

text \<open>
  Claim C9: for sonnets with unique ids, \<open>search_for\<close> returns a mapping in which
  every result has \<open>matches\<close> equal to the number of its title spans plus the number
  of spans of its line matches; \<open>combine_with\<close> keeps this equality, for a first
  argument with at most one line match per line number, as every result of the program
  has; and \<open>search\<close> returns a list in which every result satisfies the equality.
\<close>

theorem match_count_invariant:
  assumes "distinct (map sonnet_id sonnet_list)"
  shows "(\<exists>res. search_for (Index_init sonnet_list) t = Inr res \<and>
            (\<forall>r \<in> set (dict_values res). count_ok r)) \<and>
         (\<forall>a b. unique_lines a \<and> count_ok a \<and> count_ok b \<longrightarrow> count_ok (combine_with a b)) \<and>
         (\<exists>rs. search (Searcher_init sonnet_list) query mode = Inr rs \<and>
            (\<forall>r \<in> set rs. count_ok r))"
proof -
  note ok = index_ok_Index_init [OF assms]
  from search_for_total [OF ok] obtain res where
    res: "search_for (Index_init sonnet_list) t = Inr res" by blast
  from search_for_well_formed [OF res] have "\<forall>r \<in> set (dict_values res). count_ok r"
    by (auto simp: dict_values_def well_formed_def)
  with res have 1: "\<exists>res. search_for (Index_init sonnet_list) t = Inr res \<and>
            (\<forall>r \<in> set (dict_values res). count_ok r)"
    by blast
  have 2: "\<forall>a b. unique_lines a \<and> count_ok a \<and> count_ok b \<longrightarrow> count_ok (combine_with a b)"
    by (simp add: count_ok_combine_with)
  have "\<forall>w. \<exists>res. search_for (Index_init sonnet_list) w = Inr res"
    using search_for_total [OF ok] by blast
  from search_words_total [OF this] obtain c where
    c: "search_words (Index_init sonnet_list) mode (split query) [] = Inr c" by blast
  have "\<forall>x \<in> set c. well_formed (snd x)"
    using search_words_well_formed [OF _ c] by simp
  then have "\<forall>r \<in> set (sort_key title (dict_values c)). count_ok r"
    by (auto simp: dict_values_def well_formed_def)
  with c have 3: "\<exists>rs. search (Searcher_init sonnet_list) query mode = Inr rs \<and>
            (\<forall>r \<in> set rs. count_ok r)"
    by (simp add: search_def Searcher_init_def)
  from 1 2 3 show ?thesis by blast
qed

text \<open>The theorem at the example corpus.\<close>

theorem match_count_invariant_witness:
  "distinct (map sonnet_id corpus) \<and>
   (\<exists>res. search_for (Index_init corpus) ''increase'' = Inr res \<and>
      (\<forall>r \<in> set (dict_values res). count_ok r)) \<and>
   unique_lines result_a \<and> count_ok result_a \<and> count_ok result_b \<and>
   count_ok (combine_with result_a result_b) \<and>
   (\<exists>rs. search (Searcher_init corpus) ''rose increase'' ''AND'' = Inr rs \<and>
      (\<forall>r \<in> set rs. count_ok r))"
proof -
  have h: "distinct (map sonnet_id corpus)"
    by (simp add: corpus_def sonnet_1_def sonnet_2_def)
  have a: "unique_lines result_a \<and> count_ok result_a \<and> count_ok result_b"
    by (simp add: unique_lines_def count_ok_def result_a_def result_b_def)
  from h a match_count_invariant [OF h, of "''increase''" "''rose increase''" "''AND''"]
  show ?thesis by blast
qed

section \<open>Properties of ansi_highlight\<close>

lemma merge_spans_acc:
  "merge_spans acc cs ce rest = acc @ merge_spans [] cs ce rest"
proof (induction rest arbitrary: acc cs ce)
  case Nil
  show ?case by simp
next
  case (Cons x rest)
  obtain s e where x: "x = (s, e)" by (cases x)
  show ?case
  proof (cases "s \<le> ce")
    case True
    with Cons.IH [of acc cs "max ce e"] x show ?thesis by simp
  next
    case False
    have "merge_spans (acc @ [(cs, ce)]) s e rest = (acc @ [(cs, ce)]) @ merge_spans [] s e rest"
      by (rule Cons.IH)
    moreover have "merge_spans [(cs, ce)] s e rest = [(cs, ce)] @ merge_spans [] s e rest"
      by (rule Cons.IH)
    ultimately show ?thesis
      using False x by simp
  qed
qed

lemma merge_spans_Cons:
  "merge_spans [] cs ce ((s, e) # rest) =
     (if s \<le> ce then merge_spans [] cs (max ce e) rest else (cs, ce) # merge_spans [] s e rest)"
  using merge_spans_acc [of "[(cs, ce)]" s e rest] by simp

lemma sorted_map_fst: "sorted (xs :: span list) \<Longrightarrow> sorted (map fst xs)"
  by (induction xs) (auto simp: less_eq_prod_def)

lemma covered_Cons: "covered ((s, e) # xs) = {s..<e} \<union> covered xs"
  by (simp add: covered_def)

lemma covered_merge_spans:
  "cs \<le> ce \<Longrightarrow> valid_spans rest \<Longrightarrow> sorted (cs # map fst rest) \<Longrightarrow>
   covered (merge_spans [] cs ce rest) = {cs..<ce} \<union> covered rest"
proof (induction rest arbitrary: cs ce)
  case Nil
  show ?case by (simp add: covered_def)
next
  case (Cons x rest)
  obtain s e where x: "x = (s, e)" by (cases x)
  from Cons.prems x have se: "cs \<le> s" "s \<le> e" and v: "valid_spans rest"
    and srt: "sorted (s # map fst rest)" "sorted (cs # map fst rest)"
    by (auto simp: valid_spans_def)
  show ?case
  proof (cases "s \<le> ce")
    case True
    have "covered (merge_spans [] cs (max ce e) rest) = {cs..<max ce e} \<union> covered rest"
      using Cons.prems(1) v srt(2) by (intro Cons.IH) simp_all
    moreover have "{cs..<max ce e} = {cs..<ce} \<union> {s..<e}"
      using True se by auto
    ultimately show ?thesis
      using True x by (simp add: merge_spans_Cons covered_Cons Un_assoc del: merge_spans.simps)
  next
    case False
    have "covered (merge_spans [] s e rest) = {s..<e} \<union> covered rest"
      using se(2) v srt(1) by (rule Cons.IH)
    with False x show ?thesis
      by (simp add: merge_spans_Cons covered_Cons del: merge_spans.simps)
  qed
qed

lemma separated_merge_spans:
  "cs \<le> ce \<Longrightarrow> valid_spans rest \<Longrightarrow> sorted (cs # map fst rest) \<Longrightarrow>
   separated (merge_spans [] cs ce rest) \<and>
   list_all (\<lambda>(s, e). cs \<le> s \<and> s \<le> e) (merge_spans [] cs ce rest)"
proof (induction rest arbitrary: cs ce)
  case Nil
  then show ?case by (simp add: separated_def)
next
  case (Cons x rest)
  obtain s e where x: "x = (s, e)" by (cases x)
  from Cons.prems x have se: "cs \<le> s" "s \<le> e" and v: "valid_spans rest"
    and srt: "sorted (s # map fst rest)" "sorted (cs # map fst rest)"
    by (auto simp: valid_spans_def)
  show ?case
  proof (cases "s \<le> ce")
    case True
    have "separated (merge_spans [] cs (max ce e) rest) \<and>
        list_all (\<lambda>(s, e). cs \<le> s \<and> s \<le> e) (merge_spans [] cs (max ce e) rest)"
      using Cons.prems(1) v srt(2) by (intro Cons.IH) simp_all
    with True x show ?thesis
      by (simp add: merge_spans_Cons del: merge_spans.simps)
  next
    case False
    have ih: "separated (merge_spans [] s e rest) \<and>
        list_all (\<lambda>(s', e'). s \<le> s' \<and> s' \<le> e') (merge_spans [] s e rest)"
      using se(2) v srt(1) by (rule Cons.IH)
    then have "\<forall>p \<in> set (merge_spans [] s e rest). ce < fst p \<and> cs \<le> fst p \<and> fst p \<le> snd p"
      using False se(1) by (auto simp: list_all_iff)
    with ih False x Cons.prems(1) show ?thesis
      by (auto simp: merge_spans_Cons separated_def list_all_iff simp del: merge_spans.simps)
  qed
qed

lemma merge_spans_separated:
  "separated ((cs, ce) # rest) \<Longrightarrow> merge_spans [] cs ce rest = (cs, ce) # rest"
proof (induction rest arbitrary: cs ce)
  case Nil
  show ?case by simp
next
  case (Cons x rest)
  obtain s e where x: "x = (s, e)" by (cases x)
  from Cons.prems x have "ce < s" and "separated ((s, e) # rest)"
    by (auto simp: separated_def)
  with Cons.IH [of s e] x show ?case
    by (simp add: merge_spans_Cons del: merge_spans.simps)
qed

lemma merged_spans_props:
  assumes "valid_spans span_list"
  shows "separated (merged_spans span_list)"
    and "covered (merged_spans span_list) = covered span_list"
    and "list_all (\<lambda>(s, e). 0 \<le> s \<and> s \<le> e) (merged_spans span_list)"
proof -
  have all: "separated (merged_spans span_list) \<and>
      covered (merged_spans span_list) = covered span_list \<and>
      list_all (\<lambda>(s, e). 0 \<le> s \<and> s \<le> e) (merged_spans span_list)"
  proof (cases "sort span_list")
    case Nil
    then have "span_list = []"
      by (metis length_0_conv length_sort)
    then show ?thesis
      by (simp add: merged_spans_def separated_def covered_def)
  next
    case (Cons x rest)
    obtain cs ce where x: "x = (cs, ce)" by (cases x)
    have "set (sort span_list) = set span_list" by simp
    with assms have v: "valid_spans ((cs, ce) # rest)"
      unfolding Cons x valid_spans_def list_all_iff by simp
    then have c: "0 \<le> cs" "cs \<le> ce" and vr: "valid_spans rest"
      by (simp_all add: valid_spans_def)
    have "sorted (sort span_list)" by simp
    then have srt: "sorted (cs # map fst rest)"
      unfolding Cons x using sorted_map_fst [of "(cs, ce) # rest"] by simp
    have cov: "covered (sort span_list) = covered span_list"
      by (simp add: covered_def)
    have m: "merged_spans span_list = merge_spans [] cs ce rest"
      by (simp add: merged_spans_def Cons x del: merge_spans.simps)
    from separated_merge_spans [OF c(2) vr srt] c(1)
    have "separated (merge_spans [] cs ce rest)"
      and "list_all (\<lambda>(s, e). 0 \<le> s \<and> s \<le> e) (merge_spans [] cs ce rest)"
      by (auto simp: list_all_iff)
    moreover have "covered (merge_spans [] cs ce rest) = covered span_list"
      using covered_merge_spans [OF c(2) vr srt] cov
      by (simp add: Cons x covered_Cons)
    ultimately show ?thesis
      by (simp add: m)
  qed
  from all show "separated (merged_spans span_list)"
    and "covered (merged_spans span_list) = covered span_list"
    and "list_all (\<lambda>(s, e). 0 \<le> s \<and> s \<le> e) (merged_spans span_list)"
    by simp_all
qed

lemma merged_spans_separated:
  "separated (sort span_list) \<Longrightarrow> merged_spans span_list = sort span_list"
  by (cases "sort span_list") (auto simp: merged_spans_def merge_spans_separated simp del: merge_spans.simps)

lemma render_acc: "render text seq out i m = out @ render text seq [] i m"
proof (induction m arbitrary: out i)
  case Nil
  show ?case by simp
next
  case (Cons x m)
  obtain s e where x: "x = (s, e)" by (cases x)
  let ?piece = "[slice text i s, seq, slice text s e, ansi_reset]"
  have "render text seq (out @ ?piece) e m = (out @ ?piece) @ render text seq [] e m"
    by (rule Cons.IH)
  moreover have "render text seq ?piece e m = ?piece @ render text seq [] e m"
    by (rule Cons.IH)
  ultimately show ?case
    using x by simp
qed

lemma render_Cons:
  "render text seq [] i ((s, e) # m) =
     slice text i s # seq # slice text s e # ansi_reset # render text seq [] e m"
  using render_acc [where out = "[slice text i s, seq, slice text s e, ansi_reset]"]
  by simp

lemma slice_append:
  assumes "0 \<le> i" and "i \<le> j"
  shows "slice text i j @ slice_from text j = slice_from text i"
proof -
  let ?a = "min (length text) (nat i)" and ?b = "min (length text) (nat j)"
  from assms have ab: "?a \<le> ?b" by simp
  then have "drop ?b text = drop (?b - ?a) (drop ?a text)" by simp
  then have "take (?b - ?a) (drop ?a text) @ drop ?b text = drop ?a text"
    by (simp only: append_take_drop_id)
  with assms show ?thesis
    by (simp add: slice_def slice_from_def slice_index_def Let_def)
qed

lemma slice_from_0: "slice_from text 0 = text"
  by (simp add: slice_from_def slice_index_def)

lemma text_pieces_render:
  "0 \<le> i \<Longrightarrow> separated m \<Longrightarrow> list_all (\<lambda>(s, e). i \<le> s \<and> s \<le> e) m \<Longrightarrow>
   concat (text_pieces (render text seq [] i m)) = slice_from text i"
proof (induction m arbitrary: i)
  case Nil
  show ?case by simp
next
  case (Cons x m)
  obtain s e where x: "x = (s, e)" by (cases x)
  from Cons.prems x have se: "i \<le> s" "s \<le> e" and sep: "separated m"
    and after: "\<forall>p \<in> set m. e < fst p" and v: "\<forall>p \<in> set m. fst p \<le> snd p"
    by (auto simp: separated_def list_all_iff)
  have "list_all (\<lambda>(s', e'). e \<le> s' \<and> s' \<le> e') m"
    using after v by (auto simp: list_all_iff)
  moreover have "0 \<le> e" using Cons.prems(1) se by simp
  ultimately have "concat (text_pieces (render text seq [] e m)) = slice_from text e"
    using sep by (intro Cons.IH)
  moreover have "slice text s e @ slice_from text e = slice_from text s"
    using Cons.prems(1) se by (intro slice_append) simp_all
  moreover have "slice text i s @ slice_from text s = slice_from text i"
    using Cons.prems(1) se by (intro slice_append) simp_all
  ultimately show ?case
    using x by (simp add: render_Cons del: render.simps)
qed

lemma marker_pieces_render:
  "marker_pieces (render text seq [] i m) = concat (map (\<lambda>_. [seq, ansi_reset]) m)"
proof (induction m arbitrary: i)
  case Nil
  show ?case by simp
next
  case (Cons x m)
  obtain s e where x: "x = (s, e)" by (cases x)
  with Cons.IH [of e] show ?case
    by (simp add: render_Cons del: render.simps)
qed

lemma highlighted_pieces_render:
  "highlighted_pieces (render text seq [] i m) = map (\<lambda>(s, e). slice text s e) m"
proof (induction m arbitrary: i)
  case Nil
  show ?case by (simp add: highlighted_pieces_def)
next
  case (Cons x m)
  obtain s e where x: "x = (s, e)" by (cases x)
  with Cons.IH [of e] show ?case
    by (simp add: render_Cons highlighted_pieces_def del: render.simps)
qed

lemma ansi_highlight_concat:
  "ansi_highlight text span_list highlight_mode = concat (ansi_out text span_list highlight_mode)"
proof (cases "span_list = []")
  case True
  then show ?thesis
    by (simp add: ansi_highlight_def ansi_out_def merged_spans_def slice_from_0)
next
  case False
  then show ?thesis by (simp add: ansi_highlight_def)
qed

text \<open>
  Claim C8: for every text and every list of spans \<open>(start, end)\<close> with
  \<open>0 \<le> start \<le> end\<close>: with no spans the text is returned unchanged; the merged
  regions are in ascending order with a gap between any two of them, so every span that
  starts at or before the current end has been merged, and they cover exactly the indices
  the spans cover; spans that are already apart stay as they are, sorted; the output is
  the concatenation of pieces in which the markers alternate with pieces of the text,
  the pieces of the text put together are the text, every region is preceded by the
  sequence of the mode and followed by the reset sequence, and the highlighted pieces are
  the slices of the text at the merged regions. The spans \<open>(0,3)\<close> and \<open>(2,5)\<close>, and
  the adjacent \<open>(0,3)\<close> and \<open>(3,5)\<close>, merge into \<open>(0,5)\<close>.
\<close>

theorem ansi_highlight_regions:
  assumes "valid_spans span_list"
  shows "ansi_highlight text [] highlight_mode = text \<and>
    separated (merged_spans span_list) \<and>
    covered (merged_spans span_list) = covered span_list \<and>
    (separated (sort span_list) \<longrightarrow> merged_spans span_list = sort span_list) \<and>
    ansi_highlight text span_list highlight_mode =
      concat (ansi_out text span_list highlight_mode) \<and>
    concat (text_pieces (ansi_out text span_list highlight_mode)) = text \<and>
    marker_pieces (ansi_out text span_list highlight_mode) =
      concat (map (\<lambda>_. [ansi_sequence highlight_mode, ansi_reset]) (merged_spans span_list)) \<and>
    highlighted_pieces (ansi_out text span_list highlight_mode) =
      map (\<lambda>(s, e). slice text s e) (merged_spans span_list) \<and>
    merged_spans [(0, 3), (2, 5)] = [(0, 5)] \<and>
    merged_spans [(0, 3), (3, 5)] = [(0, 5)]"
proof -
  note m = merged_spans_props [OF assms]
  have "concat (text_pieces (ansi_out text span_list highlight_mode)) = slice_from text 0"
    unfolding ansi_out_def using m(1,3) by (intro text_pieces_render) simp_all
  then have t: "concat (text_pieces (ansi_out text span_list highlight_mode)) = text"
    by (simp add: slice_from_0)
  have e: "merged_spans [(0, 3), (2, 5)] = [(0, 5)]" "merged_spans [(0, 3), (3, 5)] = [(0, 5)]"
    by (simp_all add: merged_spans_def)
  have "ansi_highlight text [] highlight_mode = text"
    by (simp add: ansi_highlight_def)
  with m(1,2) t e show ?thesis
    by (simp add: merged_spans_separated ansi_highlight_concat ansi_out_def
        marker_pieces_render highlighted_pieces_render)
qed

text \<open>The theorem on a text of ten characters, at two overlapping spans and at two
  spans that are apart.\<close>

theorem ansi_highlight_regions_witness:
  "valid_spans [(0, 3), (2, 5)] \<and> valid_spans [(4, 6), (0, 2)] \<and>
   merged_spans [(0, 3), (2, 5)] = [(0, 5)] \<and>
   ansi_highlight ''0123456789'' [(0, 3), (2, 5)] ''DEFAULT'' =
     CHR 0x1B # ''[43m'' @ CHR 0x1B # ''[30m01234'' @ CHR 0x1B # ''[0m56789'' \<and>
   concat (text_pieces (ansi_out ''0123456789'' [(0, 3), (2, 5)] ''DEFAULT'')) = ''0123456789'' \<and>
   highlighted_pieces (ansi_out ''0123456789'' [(0, 3), (2, 5)] ''DEFAULT'') = [''01234''] \<and>
   separated (sort [(4, 6), (0, 2)]) \<and>
   merged_spans [(4, 6), (0, 2)] = [(0, 2), (4, 6)] \<and>
   highlighted_pieces (ansi_out ''0123456789'' [(4, 6), (0, 2)] ''DEFAULT'') = [''01'', ''45'']"
proof -
  have v1: "valid_spans [(0, 3), (2, 5)]" and v2: "valid_spans [(4, 6), (0, 2)]"
    by (simp_all add: valid_spans_def)
  have srt: "sort [(4, 6), (0, 2)] = ([(0, 2), (4, 6)] :: span list)"
    by simp
  have sep: "separated (sort [(4, 6), (0, 2)])"
    unfolding srt by (simp add: separated_def)
  have sl: "slice ''0123456789'' 0 5 = ''01234''" "slice ''0123456789'' 0 2 = ''01''"
    "slice ''0123456789'' 4 6 = ''45''"
    by (simp_all add: slice_def slice_index_def)
  have hl: "ansi_highlight ''0123456789'' [(0, 3), (2, 5)] ''DEFAULT'' =
     CHR 0x1B # ''[43m'' @ CHR 0x1B # ''[30m01234'' @ CHR 0x1B # ''[0m56789''"
    by (simp add: ansi_highlight_def ansi_out_def merged_spans_def ansi_sequence_def
        ansi_reset_def slice_def slice_from_def slice_index_def)
  from v1 v2 sep hl sl srt
    ansi_highlight_regions [OF v1, of "''0123456789''" "''DEFAULT''"]
    ansi_highlight_regions [OF v2, of "''0123456789''" "''DEFAULT''"]
  show ?thesis
    by simp
qed

section \<open>The store\<close>

lemma get_obj_append: "get_obj h a = Some ob \<Longrightarrow> get_obj (h @ ext) a = Some ob"
  by (auto simp: get_obj_def nth_append split: if_splits)

lemma get_obj_new: "get_obj (h @ [ob]) (length h) = Some ob"
  by (simp add: get_obj_def)

lemma get_span_list_append:
  "get_span_list h a = Some xs \<Longrightarrow> get_span_list (h @ ext) a = Some xs"
  by (auto simp: get_span_list_def get_obj_append split: option.splits obj.splits)

lemma get_linematch_list_append:
  "get_linematch_list h a = Some xs \<Longrightarrow> get_linematch_list (h @ ext) a = Some xs"
  by (auto simp: get_linematch_list_def get_obj_append split: option.splits obj.splits)

lemma get_linematch_append:
  "get_linematch h a = Some v \<Longrightarrow> get_linematch (h @ ext) a = Some v"
  by (auto simp: get_linematch_def get_obj_append split: option.splits obj.splits)

lemma get_result_append:
  "get_result h a = Some v \<Longrightarrow> get_result (h @ ext) a = Some v"
  by (auto simp: get_result_def get_obj_append split: option.splits obj.splits)

lemma abs_linematch_append:
  "abs_linematch h a = Some lm \<Longrightarrow> abs_linematch (h @ ext) a = Some lm"
  by (auto simp: abs_linematch_def get_linematch_append get_span_list_append
      split: Option.bind_splits)

lemma abs_linematches_append:
  "abs_linematches h as = Some lms \<Longrightarrow> abs_linematches (h @ ext) as = Some lms"
  by (induction as arbitrary: lms) (auto simp: abs_linematch_append split: Option.bind_splits)

lemma keeps_refl: "keeps h h"
  by (simp add: keeps_def)

lemma keeps_trans: "keeps h h' \<Longrightarrow> keeps h' h'' \<Longrightarrow> keeps h h''"
  by (simp add: keeps_def)

lemma keeps_append: "keeps h (h @ ext)"
  by (simp add: keeps_def get_span_list_append get_linematch_list_append get_result_append)

lemma frame_refl: "frame h h"
  by (simp add: frame_def)

lemma frame_append: "frame h0 h \<Longrightarrow> frame h0 (h @ ext)"
  by (auto simp: frame_def)

lemma frame_get_obj: "frame h0 h \<Longrightarrow> get_obj h0 a = Some ob \<Longrightarrow> get_obj h a = Some ob"
proof -
  assume f: "frame h0 h" and g: "get_obj h0 a = Some ob"
  from g have a: "a < length h0" and ob: "h0 ! a = ob"
    by (auto simp: get_obj_def split: if_splits)
  from f a have "h ! a = take (length h0) h ! a" by simp
  with f ob have "h ! a = ob" by (simp add: frame_def)
  with f a show ?thesis by (simp add: get_obj_def frame_def)
qed

lemma frame_get_linematch:
  "frame h0 h \<Longrightarrow> get_linematch h0 a = Some v \<Longrightarrow> get_linematch h a = Some v"
  by (auto simp: get_linematch_def frame_get_obj split: option.splits obj.splits)

lemma frame_get_span_list:
  "frame h0 h \<Longrightarrow> get_span_list h0 a = Some v \<Longrightarrow> get_span_list h a = Some v"
  by (auto simp: get_span_list_def frame_get_obj split: option.splits obj.splits)

lemma frame_get_linematch_list:
  "frame h0 h \<Longrightarrow> get_linematch_list h0 a = Some v \<Longrightarrow> get_linematch_list h a = Some v"
  by (auto simp: get_linematch_list_def frame_get_obj split: option.splits obj.splits)

lemma frame_get_result:
  "frame h0 h \<Longrightarrow> get_result h0 a = Some v \<Longrightarrow> get_result h a = Some v"
  by (auto simp: get_result_def frame_get_obj split: option.splits obj.splits)

lemma frame_abs_linematch:
  "frame h0 h \<Longrightarrow> abs_linematch h0 a = Some lm \<Longrightarrow> abs_linematch h a = Some lm"
  by (auto simp: abs_linematch_def frame_get_linematch frame_get_span_list
      split: Option.bind_splits)

lemma frame_abs_linematches:
  "frame h0 h \<Longrightarrow> abs_linematches h0 as = Some lms \<Longrightarrow> abs_linematches h as = Some lms"
  by (induction as arbitrary: lms) (auto simp: frame_abs_linematch split: Option.bind_splits)

lemma frame_abs_result:
  "frame h0 h \<Longrightarrow> abs_result h0 r = Some a \<Longrightarrow> abs_result h r = Some a"
  by (auto simp: abs_result_def frame_get_result frame_get_span_list frame_get_linematch_list
      frame_abs_linematches split: Option.bind_splits)

lemma frame_set_obj:
  "frame h0 h \<Longrightarrow> length h0 \<le> a \<Longrightarrow> set_obj h a ob = Some h' \<Longrightarrow> frame h0 h'"
  by (auto simp: frame_def set_obj_def split: if_splits)

lemma get_obj_update:
  "a < length h \<Longrightarrow> get_obj (h[a := ob]) x = (if x = a then Some ob else get_obj h x)"
  by (simp add: get_obj_def)

lemma abs_linematchD:
  "abs_linematch h a = Some lm \<Longrightarrow>
   \<exists>sp. get_linematch h a = Some (line_no lm, line_text lm, sp) \<and>
        get_span_list h sp = Some (spans lm)"
  by (auto simp: abs_linematch_def split: Option.bind_splits)

lemma abs_linematchI:
  "get_linematch h a = Some (ln, tx, sp) \<Longrightarrow> get_span_list h sp = Some xs \<Longrightarrow>
   abs_linematch h a = Some \<lparr>line_no = ln, line_text = tx, spans = xs\<rparr>"
  by (simp add: abs_linematch_def)

lemma get_linematch_lt: "get_linematch h a = Some v \<Longrightarrow> a < length h"
  by (auto simp: get_linematch_def get_obj_def split: if_splits)

lemma get_result_lt: "get_result h a = Some v \<Longrightarrow> a < length h"
  by (auto simp: get_result_def get_obj_def split: if_splits)

lemma set_spansD:
  "set_spans h t new = Some h' \<Longrightarrow>
   \<exists>ln tx sp. get_linematch h t = Some (ln, tx, sp) \<and> t < length h \<and>
     h' = h[t := LineMatchObj ln tx new]"
  by (auto simp: set_spans_def set_obj_def split: Option.bind_splits if_splits)

lemma set_spans_ok:
  "get_linematch h t = Some (ln, tx, sp) \<Longrightarrow>
   set_spans h t new = Some (h[t := LineMatchObj ln tx new])"
  by (simp add: set_spans_def set_obj_def get_linematch_lt)

lemma update_linematch:
  assumes "get_linematch h t = Some v"
  shows "get_span_list (h[t := LineMatchObj ln tx sp]) x = get_span_list h x"
    and "get_linematch_list (h[t := LineMatchObj ln tx sp]) x = get_linematch_list h x"
    and "get_result (h[t := LineMatchObj ln tx sp]) x = get_result h x"
    and "get_linematch (h[t := LineMatchObj ln tx sp]) x =
           (if x = t then Some (ln, tx, sp) else get_linematch h x)"
  using assms get_linematch_lt [OF assms]
  by (auto simp: get_span_list_def get_linematch_list_def get_result_def get_linematch_def
      get_obj_update split: option.splits obj.splits)

lemma update_result:
  assumes "get_result h c = Some v"
  shows "get_span_list (h[c := SearchResultObj t ts lms m]) x = get_span_list h x"
    and "get_linematch_list (h[c := SearchResultObj t ts lms m]) x = get_linematch_list h x"
    and "get_linematch (h[c := SearchResultObj t ts lms m]) x = get_linematch h x"
    and "get_result (h[c := SearchResultObj t ts lms m]) x =
           (if x = c then Some (t, ts, lms, m) else get_result h x)"
  using assms get_result_lt [OF assms]
  by (auto simp: get_span_list_def get_linematch_list_def get_result_def get_linematch_def
      get_obj_update split: option.splits obj.splits)

lemma abs_linematch_update_result:
  "get_result h c = Some v \<Longrightarrow>
   abs_linematch (h[c := SearchResultObj t ts lms m]) x = abs_linematch h x"
  by (simp add: abs_linematch_def update_result)

lemma abs_linematches_update_result:
  "get_result h c = Some v \<Longrightarrow>
   abs_linematches (h[c := SearchResultObj t ts lms m]) as = abs_linematches h as"
  by (induction as) (simp_all add: abs_linematch_update_result)

lemma keeps_set_spans: "set_spans h t new = Some h' \<Longrightarrow> keeps h h'"
  by (auto simp: keeps_def update_linematch dest!: set_spansD)

lemma frame_set_spans:
  "frame h0 h \<Longrightarrow> length h0 \<le> t \<Longrightarrow> set_spans h t new = Some h' \<Longrightarrow> frame h0 h'"
  by (auto simp: frame_def dest!: set_spansD)

lemma abs_linematch_set_spans_other:
  "set_spans h t new = Some h' \<Longrightarrow> x \<noteq> t \<Longrightarrow> abs_linematch h' x = abs_linematch h x"
  by (auto simp: abs_linematch_def update_linematch dest!: set_spansD)

lemma abs_linematch_set_spans_target:
  "set_spans h t new = Some h' \<Longrightarrow> abs_linematch h t = Some cur \<Longrightarrow>
   get_span_list h new = Some zs \<Longrightarrow> abs_linematch h' t = Some (cur\<lparr>spans := zs\<rparr>)"
  by (auto simp: abs_linematch_def update_linematch dest!: set_spansD split: Option.bind_splits)

lemma LineMatch_copy_abs:
  assumes "abs_linematch h a = Some lm"
  shows "LineMatch_copy h a =
     Some (h @ [SpanList (spans lm), LineMatchObj (line_no lm) (line_text lm) (length h)],
           Suc (length h))"
  using abs_linematchD [OF assms]
  by (auto simp: LineMatch_copy_def alloc_def)

lemma abs_linematch_copy:
  "abs_linematch (h @ [SpanList xs, LineMatchObj ln tx (length h)]) (Suc (length h)) =
     Some \<lparr>line_no = ln, line_text = tx, spans = xs\<rparr>"
  by (simp add: abs_linematch_def get_linematch_def get_span_list_def get_obj_def nth_append)

lemma related_Nil: "related h0 h [] []"
  by (simp add: related_def)

lemma related_append: "related h0 h d D \<Longrightarrow> related h0 (h @ ext) d D"
  unfolding related_def
  by (auto elim!: list_all2_mono simp: abs_linematch_append)

lemma list_all2_entry:
  "list_all2 P xs ys \<Longrightarrow> x \<in> set xs \<Longrightarrow> \<exists>y \<in> set ys. P x y"
  by (induction xs ys rule: list_all2_induct) auto

lemma related_entry:
  assumes "related h0 h d D" and "(k, t) \<in> set d"
  shows "\<exists>lm. length h0 \<le> t \<and> abs_linematch h t = Some lm"
proof -
  from assms(1) have "list_all2
      (\<lambda>(k, t) (k', lm). k' = k \<and> length h0 \<le> t \<and> abs_linematch h t = Some lm) d D"
    by (simp add: related_def)
  from list_all2_entry [OF this assms(2)] show ?thesis by auto
qed

lemma related_lt:
  assumes "related h0 h d D" and "(k, t) \<in> set d"
  shows "t < length h"
proof -
  from related_entry [OF assms] obtain lm where "abs_linematch h t = Some lm" by blast
  from abs_linematchD [OF this] show ?thesis by (auto dest: get_linematch_lt)
qed

lemma related_map_of:
  assumes "related h0 h d D"
  shows "case map_of d k of
      None \<Rightarrow> map_of D k = None
    | Some t \<Rightarrow> \<exists>lm. map_of D k = Some lm \<and> length h0 \<le> t \<and> abs_linematch h t = Some lm"
proof -
  from assms have "list_all2
      (\<lambda>(k, t) (k', lm). k' = k \<and> length h0 \<le> t \<and> abs_linematch h t = Some lm) d D"
    by (simp add: related_def)
  then show ?thesis
    by (induction d D rule: list_all2_induct) (auto split: option.splits)
qed

lemma snd_dict_set: "snd ` set (dict_set d k v) \<subseteq> insert v (snd ` set d)"
  using set_dict_set [of d k v] by auto

lemma distinct_snd_dict_set:
  "distinct (map snd d) \<Longrightarrow> v \<notin> snd ` set d \<Longrightarrow> distinct (map snd (dict_set d k v))"
proof (induction d k v rule: dict_set.induct)
  case (1 k v)
  show ?case by simp
next
  case (2 k' v' d k v)
  show ?case
  proof (cases "k' = k")
    case True
    with "2.prems" show ?thesis by auto
  next
    case False
    with "2.prems" "2.IH" have "distinct (map snd (dict_set d k v))" by auto
    moreover have "v' \<notin> snd ` set (dict_set d k v)"
      using snd_dict_set [of d k v] "2.prems" by auto
    ultimately show ?thesis using False by simp
  qed
qed

lemma related_dict_set_new:
  assumes "related h0 h d D" and "abs_linematch h t = Some lm" and "length h0 \<le> t"
    and "t \<notin> snd ` set d"
  shows "related h0 h (dict_set d k t) (dict_set D k lm)"
proof -
  let ?P = "\<lambda>(k, t) (k', lm). k' = k \<and> length h0 \<le> t \<and> abs_linematch h t = Some lm"
  from assms(1) have "list_all2 ?P d D"
    by (simp add: related_def)
  then have "list_all2 ?P (dict_set d k t) (dict_set D k lm)"
  proof (induction d D rule: list_all2_induct)
    case Nil
    from assms(2,3) show ?case by simp
  next
    case (Cons x xs y ys)
    with assms(2,3) show ?case by (cases x; cases y) auto
  qed
  with assms(1,4) show ?thesis
    by (simp add: related_def distinct_snd_dict_set)
qed

lemma related_update_target:
  assumes "related h0 h d D" and "map_of d k = Some t"
    and "abs_linematch h' t = Some lm'"
    and "\<And>x. x \<noteq> t \<Longrightarrow> abs_linematch h' x = abs_linematch h x"
  shows "related h0 h' d (dict_set D k lm')"
proof -
  let ?P = "\<lambda>h (k, t) (k', lm). k' = k \<and> length h0 \<le> t \<and> abs_linematch h t = Some lm"
  have "list_all2 (?P h) d D \<Longrightarrow> distinct (map snd d) \<Longrightarrow> map_of d k = Some t \<Longrightarrow>
      list_all2 (?P h') d (dict_set D k lm')"
  proof (induction d D rule: list_all2_induct)
    case Nil
    then show ?case by simp
  next
    case (Cons x xs y ys)
    obtain k0 t0 where x: "x = (k0, t0)" by (cases x)
    with Cons.hyps(1) obtain lm0 where y: "y = (k0, lm0)" "length h0 \<le> t0"
      "abs_linematch h t0 = Some lm0"
      by (cases y) auto
    show ?case
    proof (cases "k0 = k")
      case True
      with Cons.prems x have t0: "t0 = t" by simp
      have "list_all2 (?P h') xs ys"
      proof (rule list.rel_mono_strong [OF Cons.hyps(2)])
        fix p q assume pq: "p \<in> set xs" "q \<in> set ys" "?P h p q"
        from pq(1) Cons.prems(1) x t0 have "snd p \<noteq> t" by auto
        with pq(3) assms(4) [of "snd p"] show "?P h' p q" by (auto split: prod.splits)
      qed
      with True x y t0 assms(3) show ?thesis by simp
    next
      case False
      with Cons.prems x have m: "map_of xs k = Some t" by simp
      then have "(k, t) \<in> set xs" by (rule map_of_SomeD)
      with Cons.prems(1) x have "t0 \<noteq> t" by force
      with y assms(4) [of t0] have "abs_linematch h' t0 = Some lm0" by simp
      moreover from Cons.IH Cons.prems(1) m have "list_all2 (?P h') xs (dict_set ys k lm')"
        by simp
      ultimately show ?thesis using False x y by simp
    qed
  qed
  with assms(1,2) show ?thesis
    by (simp add: related_def)
qed

lemma abs_linematches_Cons:
  "abs_linematches h (a # as) = Some la \<Longrightarrow>
   \<exists>lm la'. la = lm # la' \<and> abs_linematch h a = Some lm \<and> abs_linematches h as = Some la'"
  by (auto split: Option.bind_splits)

lemma copy_step:
  assumes f: "frame h0 h" and r: "related h0 h d D" and lm: "abs_linematch h a = Some lm"
  defines "h1 \<equiv> h @ [SpanList (spans lm), LineMatchObj (line_no lm) (line_text lm) (length h)]"
  shows "LineMatch_copy h a = Some (h1, Suc (length h))"
    and "frame h0 h1"
    and "related h0 h1 (dict_set d k (Suc (length h))) (dict_set D k lm)"
proof -
  show "LineMatch_copy h a = Some (h1, Suc (length h))"
    unfolding h1_def by (rule LineMatch_copy_abs [OF lm])
  show "frame h0 h1"
    unfolding h1_def using f by (rule frame_append)
  have "abs_linematch h1 (Suc (length h)) =
      Some \<lparr>line_no = line_no lm, line_text = line_text lm, spans = spans lm\<rparr>"
    unfolding h1_def by (rule abs_linematch_copy)
  then have a: "abs_linematch h1 (Suc (length h)) = Some lm" by simp
  have fresh: "Suc (length h) \<notin> snd ` set d"
    using related_lt [OF r] by fastforce
  have "length h0 \<le> Suc (length h)"
    using f by (simp add: frame_def)
  with related_append [OF r, of "[SpanList (spans lm), LineMatchObj (line_no lm) (line_text lm) (length h)]"]
    a fresh
  show "related h0 h1 (dict_set d k (Suc (length h))) (dict_set D k lm)"
    unfolding h1_def by (intro related_dict_set_new) simp_all
qed

lemma lines_by_no_init_h_spec:
  assumes "abs_linematches h0 as = Some la" and "frame h0 h" and "related h0 h d D"
  shows "\<exists>ext d'. lines_by_no_init_h h as d = Some (h @ ext, d') \<and>
      related h0 (h @ ext) d' (fold (\<lambda>lm D. dict_set D (line_no lm) lm) la D)"
  using assms
proof (induction as arbitrary: la h d D)
  case Nil
  then show ?case by (intro exI [of _ "[]"] exI [of _ d]) auto
next
  case (Cons a as)
  from abs_linematches_Cons [OF Cons.prems(1)] obtain lm la' where
    la: "la = lm # la'" and lm0: "abs_linematch h0 a = Some lm"
    and rest: "abs_linematches h0 as = Some la'"
    by blast
  from Cons.prems(2) lm0 have lm: "abs_linematch h a = Some lm"
    by (rule frame_abs_linematch)
  from abs_linematchD [OF lm] obtain sp where
    g: "get_linematch h a = Some (line_no lm, line_text lm, sp)" by blast
  let ?ext1 = "[SpanList (spans lm), LineMatchObj (line_no lm) (line_text lm) (length h)]"
  note step = copy_step(1,2) [OF Cons.prems(2,3) lm] copy_step(3) [OF Cons.prems(2,3) lm, where k = "line_no lm"]
  from Cons.IH [OF rest step(2,3)] obtain ext d' where
    ih: "lines_by_no_init_h (h @ ?ext1) as (dict_set d (line_no lm) (Suc (length h))) =
           Some ((h @ ?ext1) @ ext, d')"
        "related h0 ((h @ ?ext1) @ ext) d'
           (fold (\<lambda>lm D. dict_set D (line_no lm) lm) la' (dict_set D (line_no lm) lm))"
    by blast
  have "lines_by_no_init_h h (a # as) d = Some (h @ (?ext1 @ ext), d')"
    using g step(1) ih(1) by simp
  moreover have "related h0 (h @ (?ext1 @ ext)) d'
      (fold (\<lambda>lm D. dict_set D (line_no lm) lm) la D)"
    using ih(2) la by simp
  ultimately show ?case by blast
qed

lemma merge_lines_h_spec:
  assumes "abs_linematches h0 bs = Some lb" and "frame h0 h" and "related h0 h d D"
  shows "\<exists>h' d'. merge_lines_h h bs d = Some (h', d') \<and> frame h0 h' \<and> keeps h h' \<and>
      related h0 h' d' (fold merge_line lb D)"
  using assms
proof (induction bs arbitrary: lb h d D)
  case Nil
  then show ?case by (simp add: keeps_refl)
next
  case (Cons b bs)
  from abs_linematches_Cons [OF Cons.prems(1)] obtain lm lb' where
    lb: "lb = lm # lb'" and lm0: "abs_linematch h0 b = Some lm"
    and rest: "abs_linematches h0 bs = Some lb'"
    by blast
  from Cons.prems(2) lm0 have lm: "abs_linematch h b = Some lm"
    by (rule frame_abs_linematch)
  from abs_linematchD [OF lm] obtain sp where
    g: "get_linematch h b = Some (line_no lm, line_text lm, sp)"
    and gs: "get_span_list h sp = Some (spans lm)" by blast
  show ?case
  proof (cases "map_of d (line_no lm)")
    case None
    with related_map_of [OF Cons.prems(3), of "line_no lm"]
    have D: "map_of D (line_no lm) = None" by simp
    let ?ext1 = "[SpanList (spans lm), LineMatchObj (line_no lm) (line_text lm) (length h)]"
    note step = copy_step(1,2) [OF Cons.prems(2,3) lm] copy_step(3) [OF Cons.prems(2,3) lm, where k = "line_no lm"]
    from Cons.IH [OF rest step(2,3)] obtain h' d' where
      ih: "merge_lines_h (h @ ?ext1) bs (dict_set d (line_no lm) (Suc (length h))) = Some (h', d')"
        "frame h0 h'" "keeps (h @ ?ext1) h'"
        "related h0 h' d' (fold merge_line lb' (dict_set D (line_no lm) lm))"
      by blast
    have "merge_lines_h h (b # bs) d = Some (h', d')"
      using g None step(1) ih(1) by simp
    moreover have "keeps h h'"
      using keeps_append ih(3) by (rule keeps_trans)
    moreover have "merge_line lm D = dict_set D (line_no lm) lm"
      using D by (simp add: merge_line_def)
    ultimately show ?thesis
      using ih(2,4) lb by auto
  next
    case (Some target)
    with related_map_of [OF Cons.prems(3), of "line_no lm"] obtain cur where
      D: "map_of D (line_no lm) = Some cur" and fresh: "length h0 \<le> target"
      and cur: "abs_linematch h target = Some cur"
      by auto
    from abs_linematchD [OF cur] obtain sp' where
      gt: "get_linematch h target = Some (line_no cur, line_text cur, sp')"
      and gts: "get_span_list h sp' = Some (spans cur)" by blast
    let ?h1 = "h @ [SpanList (spans cur @ spans lm)]"
    let ?h2 = "?h1[target := LineMatchObj (line_no cur) (line_text cur) (length h)]"
    from gt have gt1: "get_linematch ?h1 target = Some (line_no cur, line_text cur, sp')"
      by (rule get_linematch_append)
    then have set: "set_spans ?h1 target (length h) = Some ?h2"
      by (rule set_spans_ok)
    have f2: "frame h0 ?h2"
      using frame_append [OF Cons.prems(2)] fresh set by (rule frame_set_spans)
    have k2: "keeps h ?h2"
      using keeps_append keeps_set_spans [OF set] by (rule keeps_trans)
    have new: "get_span_list ?h1 (length h) = Some (spans cur @ spans lm)"
      by (simp add: get_span_list_def get_obj_new)
    have cur1: "abs_linematch ?h1 target = Some cur"
      using cur by (rule abs_linematch_append)
    have tgt: "abs_linematch ?h2 target = Some (cur\<lparr>spans := spans cur @ spans lm\<rparr>)"
      using set cur1 new by (rule abs_linematch_set_spans_target)
    have oth: "abs_linematch ?h2 x = abs_linematch ?h1 x" if "x \<noteq> target" for x
      using set that by (rule abs_linematch_set_spans_other)
    have r2: "related h0 ?h2 d (dict_set D (line_no lm) (cur\<lparr>spans := spans cur @ spans lm\<rparr>))"
      using related_append [OF Cons.prems(3)] Some tgt oth by (rule related_update_target)
    from Cons.IH [OF rest f2 r2] obtain h' d' where
      ih: "merge_lines_h ?h2 bs d = Some (h', d')"
        "frame h0 h'" "keeps ?h2 h'"
        "related h0 h' d'
           (fold merge_line lb' (dict_set D (line_no lm) (cur\<lparr>spans := spans cur @ spans lm\<rparr>)))"
      by blast
    have "merge_lines_h h (b # bs) d = Some (h', d')"
      using g Some gt gts gs set ih(1) by (simp add: alloc_def)
    moreover have "keeps h h'"
      using k2 ih(3) by (rule keeps_trans)
    moreover have "merge_line lm D = dict_set D (line_no lm) (cur\<lparr>spans := spans cur @ spans lm\<rparr>)"
      using D by (simp add: merge_line_def)
    ultimately show ?thesis
      using ih(2,4) lb by auto
  qed
qed

lemma copy_all_ok:
  "abs_linematches h as = Some lms \<Longrightarrow> \<exists>ext as'. copy_all h as = Some (h @ ext, as')"
proof (induction as arbitrary: h lms)
  case Nil
  show ?case by (intro exI [of _ "[]"]) simp
next
  case (Cons a as)
  from abs_linematches_Cons [OF Cons.prems] obtain lm lms' where
    lm: "abs_linematch h a = Some lm" and rest: "abs_linematches h as = Some lms'"
    by blast
  let ?ext1 = "[SpanList (spans lm), LineMatchObj (line_no lm) (line_text lm) (length h)]"
  from rest have "abs_linematches (h @ ?ext1) as = Some lms'"
    by (rule abs_linematches_append)
  from Cons.IH [OF this] obtain ext as' where
    "copy_all (h @ ?ext1) as = Some ((h @ ?ext1) @ ext, as')" by blast
  with LineMatch_copy_abs [OF lm] have
    "copy_all h (a # as) = Some (h @ (?ext1 @ ext), Suc (length h) # as')"
    by simp
  then show ?case by blast
qed

lemma abs_resultD:
  "abs_result h r = Some a \<Longrightarrow>
   \<exists>ts lms as. get_result h r = Some (title a, ts, lms, matches a) \<and>
     get_span_list h ts = Some (title_spans a) \<and>
     get_linematch_list h lms = Some as \<and>
     abs_linematches h as = Some (line_matches a)"
  by (auto simp: abs_result_def split: Option.bind_splits)

lemma SearchResult_copy_ok:
  assumes "abs_result h r = Some a"
  shows "\<exists>ext c ts' lms'. SearchResult_copy h r = Some (h @ ext, c) \<and> length h \<le> c \<and>
      get_result (h @ ext) c = Some (title a, ts', lms', matches a)"
proof -
  from abs_resultD [OF assms] obtain ts lms as where
    r: "get_result h r = Some (title a, ts, lms, matches a)"
    and ts: "get_span_list h ts = Some (title_spans a)"
    and lms: "get_linematch_list h lms = Some as"
    and as: "abs_linematches h as = Some (line_matches a)"
    by blast
  let ?h1 = "h @ [SpanList (title_spans a)]"
  from lms have lms1: "get_linematch_list ?h1 lms = Some as"
    by (rule get_linematch_list_append)
  from as have "abs_linematches ?h1 as = Some (line_matches a)"
    by (rule abs_linematches_append)
  from copy_all_ok [OF this] obtain ext as' where
    c: "copy_all ?h1 as = Some (?h1 @ ext, as')" by blast
  let ?h3 = "(?h1 @ ext) @ [LineMatchList as']"
  let ?ob = "SearchResultObj (title a) (length h) (length (?h1 @ ext)) (matches a)"
  have "SearchResult_copy h r = Some (?h3 @ [?ob], length ?h3)"
    using r ts lms1 c by (simp add: SearchResult_copy_def alloc_def)
  moreover have "get_result (?h3 @ [?ob]) (length ?h3) =
      Some (title a, length h, length (?h1 @ ext), matches a)"
    unfolding get_result_def get_obj_new by simp
  moreover have "?h3 @ [?ob] = h @ ([SpanList (title_spans a)] @ ext @ [LineMatchList as', ?ob])"
    by simp
  moreover have "length h \<le> length ?h3" by simp
  ultimately show ?thesis by metis
qed

lemma related_values:
  assumes "related h0 h d D"
  shows "list_all2 (\<lambda>t lm. abs_linematch h t = Some lm) (map snd d) (map snd D)"
proof -
  from assms have "list_all2
      (\<lambda>(k, t) (k', lm). k' = k \<and> length h0 \<le> t \<and> abs_linematch h t = Some lm) d D"
    by (simp add: related_def)
  then show ?thesis
    by (induction d D rule: list_all2_induct) auto
qed

lemma line_nos_h_abs:
  "list_all2 (\<lambda>t lm. abs_linematch h t = Some lm) vs ls \<Longrightarrow>
   line_nos_h h vs = Some (map line_no ls)"
proof (induction vs ls rule: list_all2_induct)
  case Nil
  show ?case by simp
next
  case (Cons v vs lm ls)
  from abs_linematchD [OF Cons.hyps(1)] Cons.IH show ?case by auto
qed

lemma insort_key_related:
  assumes "list_all2 (\<lambda>(k, v) lm. k = line_no lm \<and> abs_linematch h v = Some lm) zs ls"
    and "abs_linematch h v = Some lm"
  shows "list_all2 (\<lambda>(k, v) lm. k = line_no lm \<and> abs_linematch h v = Some lm)
           (insort_key fst (line_no lm, v) zs) (insort_key line_no lm ls)"
  using assms(1)
proof (induction zs ls rule: list_all2_induct)
  case Nil
  from assms(2) show ?case by simp
next
  case (Cons z zs l ls)
  with assms(2) show ?case by (cases z) auto
qed

lemma sort_key_related:
  "list_all2 (\<lambda>t lm. abs_linematch h t = Some lm) vs ls \<Longrightarrow>
   list_all2 (\<lambda>(k, v) lm. k = line_no lm \<and> abs_linematch h v = Some lm)
     (sort_key fst (zip (map line_no ls) vs)) (sort_key line_no ls)"
proof (induction vs ls rule: list_all2_induct)
  case Nil
  show ?case by simp
next
  case (Cons v vs lm ls)
  from insort_key_related [OF Cons.IH Cons.hyps(1)] show ?case by simp
qed

lemma abs_linematches_related:
  "list_all2 (\<lambda>(k, v) lm. k = line_no lm \<and> abs_linematch h v = Some lm) zs ls \<Longrightarrow>
   abs_linematches h (map snd zs) = Some ls"
  by (induction zs ls rule: list_all2_induct) auto

lemma sorted_values_abs:
  assumes "related h0 h d D"
  shows "line_nos_h h (dict_values d) = Some (map line_no (dict_values D))"
    and "abs_linematches h
           (map snd (sort_key fst (zip (map line_no (dict_values D)) (dict_values d)))) =
         Some (sort_key line_no (dict_values D))"
proof -
  note v = related_values [OF assms]
  show "line_nos_h h (dict_values d) = Some (map line_no (dict_values D))"
    unfolding dict_values_def using v by (rule line_nos_h_abs)
  show "abs_linematches h
      (map snd (sort_key fst (zip (map line_no (dict_values D)) (dict_values d)))) =
      Some (sort_key line_no (dict_values D))"
    unfolding dict_values_def using sort_key_related [OF v] by (rule abs_linematches_related)
qed

lemma set_result_ok:
  assumes "get_result h c = Some (t, ts, lms, m)"
  shows "set_matches h c m' = Some (h[c := SearchResultObj t ts lms m'])"
    and "set_title_spans h c ts' = Some (h[c := SearchResultObj t ts' lms m])"
    and "set_line_matches h c lms' = Some (h[c := SearchResultObj t ts lms' m])"
  using assms get_result_lt [OF assms]
  by (simp_all add: set_matches_def set_title_spans_def set_line_matches_def set_obj_def)

lemma frame_update:
  "frame h0 h \<Longrightarrow> length h0 \<le> c \<Longrightarrow> frame h0 (h[c := ob])"
  by (simp add: frame_def)

lemma combine_with_record:
  "combine_with a b =
     \<lparr>title = title a, title_spans = sort (title_spans a @ title_spans b),
      line_matches = sort_key line_no (dict_values (lines_by_no a b)),
      matches = matches a + matches b\<rparr>"
  by (cases a) (simp add: combine_with_def)

lemma combine_with_h_refines:
  assumes a: "abs_result h self = Some a" and b: "abs_result h other = Some b"
  shows "\<exists>h' c. combine_with_h h self other = Some (h', c) \<and> frame h h' \<and> length h \<le> c \<and>
      abs_result h' c = Some (combine_with a b)"
proof -
  from abs_resultD [OF a] obtain ts_a lms_a as where
    ra: "get_result h self = Some (title a, ts_a, lms_a, matches a)"
    and tsa: "get_span_list h ts_a = Some (title_spans a)"
    and lmsa: "get_linematch_list h lms_a = Some as"
    and asa: "abs_linematches h as = Some (line_matches a)"
    by blast
  from abs_resultD [OF b] obtain ts_b lms_b bs where
    rb: "get_result h other = Some (title b, ts_b, lms_b, matches b)"
    and tsb: "get_span_list h ts_b = Some (title_spans b)"
    and lmsb: "get_linematch_list h lms_b = Some bs"
    and bsb: "abs_linematches h bs = Some (line_matches b)"
    by blast
  \<comment> \<open>the copy\<close>
  from SearchResult_copy_ok [OF a] obtain ext c ts' lms' where
    copy: "SearchResult_copy h self = Some (h @ ext, c)" and fresh: "length h \<le> c"
    and c1: "get_result (h @ ext) c = Some (title a, ts', lms', matches a)"
    by blast
  define h1 where "h1 = h @ ext"
  have f1: "frame h h1"
    unfolding h1_def using frame_refl by (rule frame_append)
  have ra1: "get_result h1 self = Some (title a, ts_a, lms_a, matches a)"
    and rb1: "get_result h1 other = Some (title b, ts_b, lms_b, matches b)"
    using f1 ra rb by (auto intro: frame_get_result)
  \<comment> \<open>the assignment to matches\<close>
  define h2 where "h2 = h1[c := SearchResultObj (title a) ts' lms' (matches a + matches b)]"
  have s2: "set_matches h1 c (matches a + matches b) = Some h2"
    unfolding h2_def using c1 [folded h1_def] by (rule set_result_ok)
  have f2: "frame h h2"
    unfolding h2_def using f1 fresh by (rule frame_update)
  have c2: "get_result h2 c = Some (title a, ts', lms', matches a + matches b)"
    unfolding h2_def using c1 [folded h1_def] by (simp add: update_result)
  have tsa2: "get_span_list h2 ts_a = Some (title_spans a)"
    and tsb2: "get_span_list h2 ts_b = Some (title_spans b)"
    using f2 tsa tsb by (auto intro: frame_get_span_list)
  \<comment> \<open>the assignment to title_spans\<close>
  define h3 where "h3 = h2 @ [SpanList (sort (title_spans a @ title_spans b))]"
  define ts_new where "ts_new = length h2"
  have c3: "get_result h3 c = Some (title a, ts', lms', matches a + matches b)"
    unfolding h3_def using c2 by (rule get_result_append)
  have tn3: "get_span_list h3 ts_new = Some (sort (title_spans a @ title_spans b))"
    unfolding h3_def ts_new_def by (simp add: get_span_list_def get_obj_new)
  define h4 where "h4 = h3[c := SearchResultObj (title a) ts_new lms' (matches a + matches b)]"
  have s4: "set_title_spans h3 c ts_new = Some h4"
    unfolding h4_def using c3 by (rule set_result_ok)
  have f4: "frame h h4"
    unfolding h4_def h3_def using frame_append [OF f2] fresh by (rule frame_update)
  have c4: "get_result h4 c = Some (title a, ts_new, lms', matches a + matches b)"
    unfolding h4_def using c3 by (simp add: update_result)
  have tn4: "get_span_list h4 ts_new = Some (sort (title_spans a @ title_spans b))"
    unfolding h4_def using c3 tn3 by (simp add: update_result)
  have lmsa4: "get_linematch_list h4 lms_a = Some as"
    using f4 lmsa by (rule frame_get_linematch_list)
  \<comment> \<open>the dictionary of copies\<close>
  from lines_by_no_init_h_spec [OF asa f4 related_Nil] obtain ext5 d where
    i5: "lines_by_no_init_h h4 as [] = Some (h4 @ ext5, d)"
    and r5: "related h (h4 @ ext5) d (lines_by_no_init (line_matches a))"
    unfolding lines_by_no_init_def by blast
  define h5 where "h5 = h4 @ ext5"
  have f5: "frame h h5"
    unfolding h5_def using f4 by (rule frame_append)
  have c5: "get_result h5 c = Some (title a, ts_new, lms', matches a + matches b)"
    unfolding h5_def using c4 by (rule get_result_append)
  have tn5: "get_span_list h5 ts_new = Some (sort (title_spans a @ title_spans b))"
    unfolding h5_def using tn4 by (rule get_span_list_append)
  have lmsb5: "get_linematch_list h5 lms_b = Some bs"
    using f5 lmsb by (rule frame_get_linematch_list)
  \<comment> \<open>the loop over the other result\<close>
  from merge_lines_h_spec [OF bsb f5 r5 [folded h5_def]] obtain h6 d' where
    m6: "merge_lines_h h5 bs d = Some (h6, d')" and f6: "frame h h6" and k6: "keeps h5 h6"
    and r6: "related h h6 d' (lines_by_no a b)"
    unfolding lines_by_no_def by blast
  have c6: "get_result h6 c = Some (title a, ts_new, lms', matches a + matches b)"
    and tn6: "get_span_list h6 ts_new = Some (sort (title_spans a @ title_spans b))"
    using k6 c5 tn5 by (auto simp: keeps_def)
  \<comment> \<open>sorting and the assignment to line_matches\<close>
  define keys where "keys = map line_no (dict_values (lines_by_no a b))"
  define sorted_refs where "sorted_refs = map snd (sort_key fst (zip keys (dict_values d')))"
  note sv = sorted_values_abs [OF r6]
  have k: "line_nos_h h6 (dict_values d') = Some keys"
    unfolding keys_def by (rule sv(1))
  have abs6: "abs_linematches h6 sorted_refs =
      Some (sort_key line_no (dict_values (lines_by_no a b)))"
    unfolding sorted_refs_def keys_def by (rule sv(2))
  define h7 where "h7 = h6 @ [LineMatchList sorted_refs]"
  define lms_new where "lms_new = length h6"
  have c7: "get_result h7 c = Some (title a, ts_new, lms', matches a + matches b)"
    unfolding h7_def using c6 by (rule get_result_append)
  have tn7: "get_span_list h7 ts_new = Some (sort (title_spans a @ title_spans b))"
    unfolding h7_def using tn6 by (rule get_span_list_append)
  have ln7: "get_linematch_list h7 lms_new = Some sorted_refs"
    unfolding h7_def lms_new_def by (simp add: get_linematch_list_def get_obj_new)
  have abs7: "abs_linematches h7 sorted_refs =
      Some (sort_key line_no (dict_values (lines_by_no a b)))"
    unfolding h7_def using abs6 by (rule abs_linematches_append)
  define h8 where "h8 = h7[c := SearchResultObj (title a) ts_new lms_new (matches a + matches b)]"
  have s8: "set_line_matches h7 c lms_new = Some h8"
    unfolding h8_def using c7 by (rule set_result_ok)
  have f8: "frame h h8"
    unfolding h8_def h7_def using frame_append [OF f6] fresh by (rule frame_update)
  have c8: "get_result h8 c = Some (title a, ts_new, lms_new, matches a + matches b)"
    unfolding h8_def using c7 by (simp add: update_result)
  have tn8: "get_span_list h8 ts_new = Some (sort (title_spans a @ title_spans b))"
    unfolding h8_def using c7 tn7 by (simp add: update_result)
  have ln8: "get_linematch_list h8 lms_new = Some sorted_refs"
    unfolding h8_def using c7 ln7 by (simp add: update_result)
  have abs8: "abs_linematches h8 sorted_refs =
      Some (sort_key line_no (dict_values (lines_by_no a b)))"
    unfolding h8_def using c7 abs7 by (simp add: abs_linematches_update_result)
  have res: "abs_result h8 c = Some (combine_with a b)"
    using c8 tn8 ln8 abs8 by (simp add: abs_result_def combine_with_record)
  \<comment> \<open>the call\<close>
  have "combine_with_h h self other = Some (h8, c)"
    unfolding combine_with_h_def
    using copy [folded h1_def] ra1 rb1 s2 tsa2 tsb2 s4 [unfolded h3_def ts_new_def]
      lmsa4 i5 [folded h5_def] lmsb5 m6 k
      s8 [unfolded h7_def lms_new_def sorted_refs_def]
    by (simp add: alloc_def)
  with f8 res fresh show ?thesis by blast
qed

text \<open>
  Claim C10: \<open>a.combine_with(b)\<close> changes neither of its arguments. For a store
  \<open>h\<close> that holds the result \<open>a\<close> at the address \<open>self\<close> and \<open>b\<close> at \<open>other\<close>
  (the two may be one object), the call returns; every object of \<open>h\<close> is in the new
  store as it was, so \<open>self\<close> and \<open>other\<close> still hold \<open>a\<close> and \<open>b\<close>, with their
  \<open>matches\<close>, their lists of title spans and line matches and the spans of every line
  match; and the returned address is that of a new object, which holds the combination
  computed by \<^const>\<open>combine_with\<close>.
\<close>

theorem combine_with_keeps_inputs:
  assumes "abs_result h self = Some a" and "abs_result h other = Some b"
  shows "\<exists>h' c. combine_with_h h self other = Some (h', c) \<and>
      take (length h) h' = h \<and>
      abs_result h' self = Some a \<and> abs_result h' other = Some b \<and>
      length h \<le> c \<and> abs_result h' c = Some (combine_with a b)"
proof -
  from combine_with_h_refines [OF assms] obtain h' c where
    r: "combine_with_h h self other = Some (h', c)" "frame h h'" "length h \<le> c"
      "abs_result h' c = Some (combine_with a b)"
    by blast
  from r(2) assms have "abs_result h' self = Some a" "abs_result h' other = Some b"
    by (auto intro: frame_abs_result)
  with r show ?thesis
    by (auto simp: frame_def)
qed

text \<open>The theorem at the example store, which holds \<^const>\<open>result_a\<close> at address 3 and
  \<^const>\<open>result_b\<close> at address 11.\<close>

theorem combine_with_keeps_inputs_witness:
  "abs_result example_heap 3 = Some result_a \<and> abs_result example_heap 11 = Some result_b \<and>
   (\<exists>h' c. combine_with_h example_heap 3 11 = Some (h', c) \<and>
      take (length example_heap) h' = example_heap \<and>
      abs_result h' 3 = Some result_a \<and> abs_result h' 11 = Some result_b \<and>
      length example_heap \<le> c \<and> abs_result h' c = Some (combine_with result_a result_b))"
proof -
  have a: "abs_result example_heap 3 = Some result_a"
    by (simp add: abs_result_def abs_linematch_def get_result_def get_span_list_def
        get_linematch_list_def get_linematch_def get_obj_def example_heap_def result_a_def)
  have b: "abs_result example_heap 11 = Some result_b"
    by (simp add: abs_result_def abs_linematch_def get_result_def get_span_list_def
        get_linematch_list_def get_linematch_def get_obj_def example_heap_def result_b_def)
  from a b combine_with_keeps_inputs [OF a b] show ?thesis
    by blast
qed


end
